theory Spec2Isabelle
  imports Complex_Main "HOL-Library.Sublist"
begin

section \<open>Python values\<close>

text \<open>
  A Python \<open>str\<close> is modelled as a \<open>string\<close>: a list of code points below 256,
  each character standing for the code point of its number (so \<open>CHR 0xE9\<close> is the
  letter e with acute accent). Case mapping and the character classes are those of
  Python's Unicode database on these code points.
  An exception is a value carrying its class name and \<open>str(e)\<close>; a computation that
  may raise returns \<open>py_exception + 'a\<close> with \<open>Inl\<close> for the raised exception.
  A number that Python produces either as an \<open>int\<close> or as a \<open>float\<close> is a
  \<open>pynum\<close>; float division is modelled as exact division of rationals.
\<close>

datatype py_exception = PyExc (exc_class: string) (exc_str: string)

datatype pynum = PyInt int | PyFloat rat

fun num_val :: "pynum \<Rightarrow> rat" where
  "num_val (PyInt i) = of_int i"
| "num_val (PyFloat q) = q"

text \<open>\<open>a / b\<close> on two ints: raises on a zero divisor.\<close>

definition py_truediv :: "int \<Rightarrow> int \<Rightarrow> py_exception + pynum" where
  "py_truediv a b =
     (if b = 0 then Inl (PyExc ''ZeroDivisionError'' ''division by zero'')
      else Inr (PyFloat (of_int a / of_int b)))"

text \<open>\<open>xs[:n]\<close>: a negative bound counts from the end, and bounds are clamped.\<close>

definition slice_to :: "'a list \<Rightarrow> int \<Rightarrow> 'a list" where
  "slice_to xs n =
     (if n < 0 then take (nat (int (length xs) + n)) xs else take (nat n) xs)"

text \<open>\<open>xs[i:j]\<close> for bounds that are not negative.\<close>

definition slice :: "'a list \<Rightarrow> nat \<Rightarrow> nat \<Rightarrow> 'a list" where
  "slice xs i j = take (j - i) (drop i xs)"

text \<open>\<open>ord(c)\<close>\<close>

definition code_point :: "char \<Rightarrow> nat" where
  "code_point c = of_char c"

text \<open>The characters that \<open>lower()\<close> changes: the capital letters A to Z, and the
  accented capitals 0xC0 to 0xDE except the multiplication sign 0xD7. Each is 32 below
  its small letter.\<close>

definition is_upper :: "char \<Rightarrow> bool" where
  "is_upper c =
     ((65 \<le> code_point c \<and> code_point c \<le> 90)
      \<or> (192 \<le> code_point c \<and> code_point c \<le> 214)
      \<or> (216 \<le> code_point c \<and> code_point c \<le> 222))"

text \<open>\<open>c.isalnum()\<close>: the digits, the letters A to Z and a to z, and among the code
  points from 128 on the ordinal indicators 0xAA and 0xBA, the superscript digits 0xB2,
  0xB3 and 0xB9, the micro sign 0xB5, the fractions 0xBC to 0xBE, and the letters 0xC0
  to 0xFF except the multiplication sign 0xD7 and the division sign 0xF7.\<close>

definition is_alnum :: "char \<Rightarrow> bool" where
  "is_alnum c =
     ((48 \<le> code_point c \<and> code_point c \<le> 57)
      \<or> (65 \<le> code_point c \<and> code_point c \<le> 90)
      \<or> (97 \<le> code_point c \<and> code_point c \<le> 122)
      \<or> code_point c = 170
      \<or> (178 \<le> code_point c \<and> code_point c \<le> 179)
      \<or> code_point c = 181
      \<or> (185 \<le> code_point c \<and> code_point c \<le> 186)
      \<or> (188 \<le> code_point c \<and> code_point c \<le> 190)
      \<or> (192 \<le> code_point c \<and> code_point c \<le> 214)
      \<or> (216 \<le> code_point c \<and> code_point c \<le> 246)
      \<or> (248 \<le> code_point c \<and> code_point c \<le> 255))"

text \<open>The characters \<open>\s\<close> and \<open>str.split()\<close> treat as whitespace
  (\<open>c.isspace()\<close>): 0x09 to 0x0D, 0x1C to 0x20, the next-line control 0x85 and the
  no-break space 0xA0.\<close>

definition is_space :: "char \<Rightarrow> bool" where
  "is_space c =
     ((9 \<le> code_point c \<and> code_point c \<le> 13)
      \<or> (28 \<le> code_point c \<and> code_point c \<le> 32)
      \<or> code_point c = 133
      \<or> code_point c = 160)"

text \<open>The characters \<open>\w\<close> matches: the alphanumeric ones and the underscore.\<close>

definition is_word :: "char \<Rightarrow> bool" where
  "is_word c = (is_alnum c \<or> c = CHR ''_'')"

text \<open>\<open>c.lower()\<close>. On these code points \<open>re.IGNORECASE\<close> takes two characters
  for equal exactly when their lower-case forms are equal.\<close>

definition lower_char :: "char \<Rightarrow> char" where
  "lower_char c = (if is_upper c then char_of (code_point c + 32) else c)"

text \<open>\<open>s.lower()\<close>\<close>

definition lower :: "string \<Rightarrow> string" where
  "lower s = map lower_char s"

text \<open>\<open>s.isalnum()\<close>: every character is alphanumeric and there is at least one.\<close>

definition isalnum :: "string \<Rightarrow> bool" where
  "isalnum s = (s \<noteq> [] \<and> list_all is_alnum s)"

text \<open>\<open>k in s\<close> on strings: \<open>k\<close> occurs in \<open>s\<close> as a contiguous substring.\<close>

fun is_substring :: "string \<Rightarrow> string \<Rightarrow> bool" where
  "is_substring k [] = (k = [])"
| "is_substring k (c # cs) = (prefix k (c # cs) \<or> is_substring k cs)"

section \<open>WebScraper\<close>

subsection \<open>get_text_preview\<close>

definition get_text_preview :: "string \<Rightarrow> int \<Rightarrow> string" where
  "get_text_preview text max_length =
     (if text = [] then ''No content available''
      else if int (length text) > max_length then slice_to text max_length @ ''...''
      else text)"

subsection \<open>get_website_text_content\<close>

text \<open>
  The fetch and extraction collaborators are parameters. \<open>fetch_url\<close> gives the
  outcome of the fetch made in attempt \<open>a\<close>: an exception, nothing, or the downloaded
  page; \<open>extract_text\<close> (\<open>trafilatura.extract\<close>) gives the outcome of the extraction on a page. The calls made to
  the collaborators and to \<open>time.sleep\<close> are recorded as events, in order.
\<close>

record fetcher =
  fetch_url :: "nat \<Rightarrow> string \<Rightarrow> py_exception + string option"
  extract_text :: "string \<Rightarrow> py_exception + string option"

datatype event = FetchUrl string | Extract string | Sleep nat

text \<open>
  The body of the \<open>try\<close> of one attempt, with its handler: the extracted text when
  it is not empty, and otherwise nothing (the warning is logged, an exception is caught).
\<close>

definition try_attempt :: "fetcher \<Rightarrow> string \<Rightarrow> nat \<Rightarrow> string option \<times> event list" where
  "try_attempt net url attempt =
     (case fetch_url net attempt url of
        Inl e \<Rightarrow> (None, [FetchUrl url])
      | Inr None \<Rightarrow> (None, [FetchUrl url])
      | Inr (Some downloaded) \<Rightarrow>
          if downloaded = [] then (None, [FetchUrl url])
          else (case extract_text net downloaded of
                  Inl e \<Rightarrow> (None, [FetchUrl url, Extract downloaded])
                | Inr None \<Rightarrow> (None, [FetchUrl url, Extract downloaded])
                | Inr (Some text) \<Rightarrow>
                    if text = [] then (None, [FetchUrl url, Extract downloaded])
                    else (Some text, [FetchUrl url, Extract downloaded])))"

text \<open>The loop over \<open>range(max_retries)\<close>, on the attempts that remain.\<close>

fun retry_loop :: "fetcher \<Rightarrow> string \<Rightarrow> int \<Rightarrow> nat list \<Rightarrow> string option \<times> event list" where
  "retry_loop net url max_retries [] = (None, [])"
| "retry_loop net url max_retries (attempt # rest) =
     (case try_attempt net url attempt of
        (Some text, evs) \<Rightarrow> (Some text, evs)
      | (None, evs) \<Rightarrow>
          (let wait = (if int attempt < max_retries - 1 then [Sleep (attempt + 1)] else []);
               (r, evs') = retry_loop net url max_retries rest
           in (r, evs @ wait @ evs')))"

definition get_website_text_content :: "fetcher \<Rightarrow> string \<Rightarrow> int \<Rightarrow> string option \<times> event list" where
  "get_website_text_content net url max_retries =
     retry_loop net url max_retries [0 ..< nat max_retries]"

definition fetches :: "event list \<Rightarrow> nat" where
  "fetches evs = length (filter (\<lambda>e. case e of FetchUrl u \<Rightarrow> True | _ \<Rightarrow> False) evs)"

definition sleeps :: "event list \<Rightarrow> nat list" where
  "sleeps evs = concat (map (\<lambda>e. case e of Sleep n \<Rightarrow> [n] | _ \<Rightarrow> []) evs)"

text \<open>
  The events of one iteration of the loop whose attempt fails: those of the attempt,
  then the sleep when another attempt remains.
\<close>

definition iteration :: "fetcher \<Rightarrow> string \<Rightarrow> int \<Rightarrow> nat \<Rightarrow> event list" where
  "iteration net url max_retries attempt =
     snd (try_attempt net url attempt)
     @ (if int attempt < max_retries - 1 then [Sleep (attempt + 1)] else [])"

text \<open>Two collaborators to evaluate on: one that never returns a page, and one whose
  third fetch is the first to return a page.\<close>

definition dead_net :: fetcher where
  "dead_net = \<lparr>fetch_url = (\<lambda>a u. Inr None), extract_text = (\<lambda>d. Inr None)\<rparr>"

definition flaky_net :: fetcher where
  "flaky_net =
     \<lparr>fetch_url = (\<lambda>a u. if a < 2 then Inr None else Inr (Some ''<p>hello</p>'')),
      extract_text = (\<lambda>d. Inr (Some ''hello''))\<rparr>"

subsection \<open>save_text_to_file\<close>

text \<open>
  The file system is a parameter: \<open>mkdir\<close> is \<open>Path.mkdir(exist_ok=True)\<close>,
  \<open>write_text\<close> is opening a path for writing and writing the text, \<open>joinpath\<close> is
  \<open>output_dir / filename\<close> as a string. \<open>now\<close> is \<open>int(time.time())\<close>.
\<close>

record 'fs filesystem =
  mkdir :: "'fs \<Rightarrow> string \<Rightarrow> py_exception + 'fs"
  write_text :: "'fs \<Rightarrow> string \<Rightarrow> string \<Rightarrow> py_exception + 'fs"
  joinpath :: "string \<Rightarrow> string \<Rightarrow> string"

text \<open>\<open>str(n)\<close> of a natural number.\<close>

function str_of_nat :: "nat \<Rightarrow> string" where
  "str_of_nat n =
     (if n < 10 then [''0123456789'' ! n]
      else str_of_nat (n div 10) @ [''0123456789'' ! (n mod 10)])"
  by pat_completeness auto
termination
  by (relation "measure id") auto

declare str_of_nat.simps [simp del]

definition save_text_to_file ::
    "'fs filesystem \<Rightarrow> nat \<Rightarrow> 'fs \<Rightarrow> string \<Rightarrow> string option \<Rightarrow> py_exception + (string \<times> 'fs)" where
  "save_text_to_file os now fs text filename =
     (if text = [] then Inr (''No content to save'', fs)
      else
        let filename' =
              (case filename of
                 None \<Rightarrow> ''scraped_content_'' @ str_of_nat now @ ''.txt''
               | Some f \<Rightarrow> if f = [] then ''scraped_content_'' @ str_of_nat now @ ''.txt'' else f);
            output_dir = ''scraped_content''
        in case mkdir os fs output_dir of
             Inl e \<Rightarrow> Inl e
           | Inr fs' \<Rightarrow>
               (let file_path = joinpath os output_dir filename'
                in case write_text os fs' file_path text of
                     Inl e \<Rightarrow> Inl e
                   | Inr fs'' \<Rightarrow> Inr (file_path, fs'')))"

text \<open>
  A small file system to evaluate on: a list of paths, each a directory or a file with
  its content, below a working directory that may be read-only. The parent of a path is
  what stands before its last \<open>/\<close>; a path without \<open>/\<close> lies in the working
  directory. \<open>quoted\<close> is the \<open>repr\<close> of a path in the message of an exception.
\<close>

datatype node = Dir | File string

record flat_fs =
  entries :: "(string \<times> node) list"
  writable :: bool

definition quoted :: "string \<Rightarrow> string" where
  "quoted path = [CHR 0x27] @ path @ [CHR 0x27]"

definition parent :: "string \<Rightarrow> string" where
  "parent path = rev (drop 1 (dropWhile (\<lambda>c. c \<noteq> CHR ''/'') (rev path)))"

text \<open>What stands in the way of creating \<open>path\<close>: a missing parent, a parent that
  is a file, or a read-only working directory.\<close>

definition create_error :: "flat_fs \<Rightarrow> string \<Rightarrow> py_exception option" where
  "create_error fs path =
     (if CHR ''/'' \<in> set path \<and> map_of (entries fs) (parent path) = None
      then Some (PyExc ''FileNotFoundError''
                   (''[Errno 2] No such file or directory: '' @ quoted path))
      else if CHR ''/'' \<in> set path \<and> map_of (entries fs) (parent path) \<noteq> Some Dir
      then Some (PyExc ''NotADirectoryError'' (''[Errno 20] Not a directory: '' @ quoted path))
      else if \<not> writable fs
      then Some (PyExc ''PermissionError'' (''[Errno 13] Permission denied: '' @ quoted path))
      else None)"

definition flat_mkdir :: "flat_fs \<Rightarrow> string \<Rightarrow> py_exception + flat_fs" where
  "flat_mkdir fs path =
     (case map_of (entries fs) path of
        Some Dir \<Rightarrow> Inr fs
      | Some (File c) \<Rightarrow>
          Inl (PyExc ''FileExistsError'' (''[Errno 17] File exists: '' @ quoted path))
      | None \<Rightarrow>
          (case create_error fs path of
             Some e \<Rightarrow> Inl e
           | None \<Rightarrow> Inr (fs\<lparr>entries := (path, Dir) # entries fs\<rparr>)))"

definition flat_write_text :: "flat_fs \<Rightarrow> string \<Rightarrow> string \<Rightarrow> py_exception + flat_fs" where
  "flat_write_text fs path text =
     (case map_of (entries fs) path of
        Some Dir \<Rightarrow>
          Inl (PyExc ''IsADirectoryError'' (''[Errno 21] Is a directory: '' @ quoted path))
      | Some (File c) \<Rightarrow>
          if writable fs then Inr (fs\<lparr>entries := (path, File text) # entries fs\<rparr>)
          else Inl (PyExc ''PermissionError''
                      (''[Errno 13] Permission denied: '' @ quoted path))
      | None \<Rightarrow>
          (case create_error fs path of
             Some e \<Rightarrow> Inl e
           | None \<Rightarrow> Inr (fs\<lparr>entries := (path, File text) # entries fs\<rparr>)))"

text \<open>\<open>output_dir / filename\<close>: an absolute file name replaces the directory.\<close>

definition flat_joinpath :: "string \<Rightarrow> string \<Rightarrow> string" where
  "flat_joinpath dir name =
     (if take 1 name = ''/'' then name else dir @ ''/'' @ name)"

definition flat_os :: "flat_fs filesystem" where
  "flat_os = \<lparr>mkdir = flat_mkdir, write_text = flat_write_text, joinpath = flat_joinpath\<rparr>"

section \<open>TextAnalyzer\<close>

text \<open>
  The tokenizer (\<open>word_tokenize\<close>) and the English stopword list are parameters; the
  tokenizer may raise. The analyzer object holds the stopword set and the theme table
  that \<open>__init__\<close> builds; the table is a dictionary in insertion order.
\<close>

type_synonym tokenizer = "string \<Rightarrow> py_exception + string list"

record text_analyzer =
  stop_words :: "string set"
  themes :: "(string \<times> string list) list"

definition text_analyzer_init :: "string list \<Rightarrow> text_analyzer" where
  "text_analyzer_init english_stopwords =
     \<lparr>stop_words = set english_stopwords,
      themes =
        [(''community'', [''community'', ''social'', ''shared'', ''together'', ''connect'',
                          ''interact'', ''neighbors'']),
         (''convenience'', [''convenient'', ''easy'', ''simple'', ''quick'', ''fast'',
                            ''efficient'', ''hassle-free'']),
         (''location'', [''location'', ''area'', ''neighborhood'', ''district'', ''zone'',
                         ''region'', ''place'']),
         (''amenities'', [''amenities'', ''features'', ''facilities'', ''services'',
                          ''utilities'', ''included'']),
         (''lifestyle'', [''lifestyle'', ''living'', ''experience'', ''quality'', ''comfort'',
                          ''enjoy'', ''relax'']),
         (''sustainability'', [''sustainable'', ''eco-friendly'', ''green'',
                               ''environmental'', ''energy'', ''recycle''])]\<rparr>"

subsection \<open>The result of an analysis\<close>

record word_statistics =
  total_words :: nat
  unique_words :: nat
  average_word_length :: pynum

record language_patterns =
  question_count :: nat
  exclamation_count :: nat
  sentence_count :: nat
  paragraph_count :: nat
  average_sentence_length :: pynum

text \<open>The fields are the keys \<open>statistics\<close>, \<open>themes\<close>, \<open>language_patterns\<close> and
  \<open>top_words\<close> of the returned dictionary; dictionaries are in insertion order.\<close>

record analysis =
  statistics :: word_statistics
  theme_scores :: "(string \<times> pynum) list"
  patterns :: language_patterns
  top_words :: "(string \<times> nat) list"

datatype analysis_result = AnalysisError string | Analysis analysis

subsection \<open>Counter\<close>

text \<open>A \<open>Counter\<close> keeps its keys in the order in which they were first counted.\<close>

fun counter_add :: "'a \<Rightarrow> ('a \<times> nat) list \<Rightarrow> ('a \<times> nat) list" where
  "counter_add w [] = [(w, 1)]"
| "counter_add w ((k, c) # rest) =
     (if k = w then (k, Suc c) # rest else (k, c) # counter_add w rest)"

definition Counter :: "'a list \<Rightarrow> ('a \<times> nat) list" where
  "Counter ws = foldl (\<lambda>counts w. counter_add w counts) [] ws"

text \<open>\<open>most_common(n)\<close>: the items sorted by decreasing count with a stable sort, cut
  to the first \<open>n\<close>.\<close>

definition most_common :: "nat \<Rightarrow> ('a \<times> nat) list \<Rightarrow> ('a \<times> nat) list" where
  "most_common n counts = take n (sort_key (\<lambda>item. - int (snd item)) counts)"

text \<open>The index of the first occurrence of \<open>w\<close> in \<open>ws\<close> (the length of \<open>ws\<close> when
  there is none): the position at which a word is first seen.\<close>

fun first_seen :: "'a list \<Rightarrow> 'a \<Rightarrow> nat" where
  "first_seen [] w = 0"
| "first_seen (x # xs) w = (if x = w then 0 else Suc (first_seen xs w))"

subsection \<open>Theme scores\<close>

definition keyword_matches :: "string list \<Rightarrow> string \<Rightarrow> nat" where
  "keyword_matches keywords text =
     length (filter (\<lambda>keyword. is_substring keyword text) keywords)"

text \<open>The comprehension that divides every score by the total.\<close>

fun normalize_scores :: "(string \<times> nat) list \<Rightarrow> nat \<Rightarrow> py_exception + (string \<times> pynum) list" where
  "normalize_scores [] total_theme_matches = Inr []"
| "normalize_scores ((theme, score) # rest) total_theme_matches =
     (case py_truediv (int score) (int total_theme_matches) of
        Inl e \<Rightarrow> Inl e
      | Inr q \<Rightarrow>
          (case normalize_scores rest total_theme_matches of
             Inl e \<Rightarrow> Inl e
           | Inr qs \<Rightarrow> Inr ((theme, q) # qs)))"

definition analyze_themes :: "text_analyzer \<Rightarrow> string \<Rightarrow> py_exception + (string \<times> pynum) list" where
  "analyze_themes self text =
     (let scores = map (\<lambda>(theme, keywords). (theme, keyword_matches keywords text))
                     (themes self);
          total_theme_matches = sum_list (map snd scores)
      in if total_theme_matches > 0 then normalize_scores scores total_theme_matches
         else Inr (map (\<lambda>(theme, score). (theme, PyInt (int score))) scores))"

text \<open>The match counts of the loop, before the normalization.\<close>

definition raw_scores :: "text_analyzer \<Rightarrow> string \<Rightarrow> (string \<times> nat) list" where
  "raw_scores self text =
     map (\<lambda>(theme, keywords). (theme, keyword_matches keywords text)) (themes self)"

subsection \<open>Language patterns\<close>

text \<open>The number of matches of a pattern \<open>[...]+\<close>: the maximal runs of characters of
  the class.\<close>

function count_runs :: "(char \<Rightarrow> bool) \<Rightarrow> string \<Rightarrow> nat" where
  "count_runs P [] = 0"
| "count_runs P (c # cs) =
     (if P c then Suc (count_runs P (dropWhile P cs)) else count_runs P cs)"
  by pat_completeness auto
termination
  by (relation "measure (\<lambda>(P, s). length s)")
     (auto simp: length_dropWhile_le le_imp_less_Suc)

text \<open>\<open>text.split()\<close>: the maximal runs of characters that are not whitespace.\<close>

function split_ws :: "string \<Rightarrow> string list" where
  "split_ws [] = []"
| "split_ws (c # cs) =
     (if is_space c then split_ws cs
      else (c # takeWhile (\<lambda>d. \<not> is_space d) cs)
           # split_ws (dropWhile (\<lambda>d. \<not> is_space d) cs))"
  by pat_completeness auto
termination
  by (relation "measure length") (auto simp: length_dropWhile_le le_imp_less_Suc)

text \<open>
  The matches of \<open>\n\s*\n\<close>. After a newline the greedy \<open>\s*\<close> takes the whole run of
  whitespace and gives back characters until a newline ends the match, so the match
  ends with the last newline of the run; \<open>newline_end\<close> is the number of characters of
  the run up to that newline, and zero when the run has none.
\<close>

definition newline_end :: "string \<Rightarrow> nat" where
  "newline_end run = length (dropWhile (\<lambda>c. c \<noteq> CHR 0x0A) (rev run))"

function count_breaks :: "string \<Rightarrow> nat" where
  "count_breaks [] = 0"
| "count_breaks (c # cs) =
     (if c = CHR 0x0A \<and> 0 < newline_end (takeWhile is_space cs)
      then Suc (count_breaks (drop (newline_end (takeWhile is_space cs)) cs))
      else count_breaks cs)"
  by pat_completeness auto
termination
  by (relation "measure length") auto

definition is_terminator :: "char \<Rightarrow> bool" where
  "is_terminator c = (c = CHR ''.'' \<or> c = CHR ''!'' \<or> c = CHR ''?'')"

definition analyze_language_patterns :: "string \<Rightarrow> py_exception + language_patterns" where
  "analyze_language_patterns text =
     (case (if count_runs is_terminator text > 0
            then py_truediv (int (length (split_ws text)))
                   (int (count_runs is_terminator text))
            else Inr (PyInt 0)) of
        Inl e \<Rightarrow> Inl e
      | Inr avg \<Rightarrow>
          Inr \<lparr>question_count = length (filter (\<lambda>c. c = CHR ''?'') text),
               exclamation_count = length (filter (\<lambda>c. c = CHR ''!'') text),
               sentence_count = count_runs is_terminator text,
               paragraph_count = count_breaks text + 1,
               average_sentence_length = avg\<rparr>)"

subsection \<open>analyze_text\<close>

text \<open>The body of the \<open>try\<close>. \<open>len(set(words))\<close> is the number of distinct tokens.\<close>

definition analyze_body :: "tokenizer \<Rightarrow> text_analyzer \<Rightarrow> string \<Rightarrow> py_exception + analysis" where
  "analyze_body word_tokenize self text =
     (case word_tokenize (lower text) of
        Inl e \<Rightarrow> Inl e
      | Inr words \<Rightarrow>
          (let word_count = length words;
               unique = length (remdups words);
               filtered_words =
                 filter (\<lambda>word. isalnum word \<and> word \<notin> stop_words self) words;
               word_freq = Counter filtered_words
           in case analyze_themes self (lower text) of
                Inl e \<Rightarrow> Inl e
              | Inr scores \<Rightarrow>
                  (case analyze_language_patterns text of
                     Inl e \<Rightarrow> Inl e
                   | Inr pats \<Rightarrow>
                       (case (if word_count > 0
                              then py_truediv (int (sum_list (map length words)))
                                     (int word_count)
                              else Inr (PyInt 0)) of
                          Inl e \<Rightarrow> Inl e
                        | Inr avg \<Rightarrow>
                            Inr \<lparr>statistics =
                                   \<lparr>total_words = word_count, unique_words = unique,
                                    average_word_length = avg\<rparr>,
                                 theme_scores = scores,
                                 patterns = pats,
                                 top_words = most_common 20 word_freq\<rparr>))))"

definition analyze_text :: "tokenizer \<Rightarrow> text_analyzer \<Rightarrow> string \<Rightarrow> analysis_result" where
  "analyze_text word_tokenize self text =
     (if text = [] then AnalysisError ''No text provided for analysis''
      else case analyze_body word_tokenize self text of
             Inl e \<Rightarrow> AnalysisError (''Error analyzing text: '' @ exc_str e)
           | Inr result \<Rightarrow> Analysis result)"

text \<open>\<open>result["themes"][name]\<close>, when the result has it.\<close>

definition theme_score :: "analysis_result \<Rightarrow> string \<Rightarrow> pynum option" where
  "theme_score result name =
     (case result of
        AnalysisError msg \<Rightarrow> None
      | Analysis r \<Rightarrow> map_of (theme_scores r) name)"

text \<open>Two tokenizers to evaluate on: one that splits at whitespace, one that raises.\<close>

definition simple_tokenize :: tokenizer where
  "simple_tokenize text = Inr (split_ws text)"

definition failing_tokenize :: tokenizer where
  "failing_tokenize text = Inl (PyExc ''LookupError'' ''Resource punkt not found'')"

subsection \<open>search_content\<close>

record context_entry =
  context_text :: string
  position :: nat

datatype search_result =
    SearchError string
  | SearchMessage string
  | SearchMatches (total_matches: nat) (contexts: "context_entry list")

text \<open>\<open>\b\<close> at offset \<open>p\<close>: exactly one of the characters before and after \<open>p\<close> is a
  word character (the ends of the text count as no word character).\<close>

definition word_boundary :: "string \<Rightarrow> nat \<Rightarrow> bool" where
  "word_boundary text p =
     ((0 < p \<and> p \<le> length text \<and> is_word (text ! (p - 1)))
      \<noteq> (p < length text \<and> is_word (text ! p)))"

text \<open>The pattern \<open>\b\<close> + the escaped term + \<open>\b\<close>, ignoring case, matches at \<open>p\<close>.\<close>

definition match_at :: "string \<Rightarrow> string \<Rightarrow> nat \<Rightarrow> bool" where
  "match_at search_term text p =
     (p + length search_term \<le> length text
      \<and> word_boundary text p
      \<and> lower (slice text p (p + length search_term)) = lower search_term
      \<and> word_boundary text (p + length search_term))"

text \<open>\<open>re.finditer\<close> from offset \<open>pos\<close>: the spans of the matches, leftmost first and
  not overlapping; the search goes on at the end of a match (one further after an empty
  one).\<close>

function finditer :: "string \<Rightarrow> string \<Rightarrow> nat \<Rightarrow> (nat \<times> nat) list" where
  "finditer search_term text pos =
     (if length text < pos then []
      else if match_at search_term text pos
      then (pos, pos + length search_term)
           # finditer search_term text (pos + max 1 (length search_term))
      else finditer search_term text (Suc pos))"
  by pat_completeness auto
termination
  by (relation "measure (\<lambda>(search_term, text, pos). Suc (length text) - pos)") auto

declare finditer.simps [simp del]

text \<open>The escaped pattern is always valid, so nothing in the \<open>try\<close> raises.\<close>

definition make_context :: "string \<Rightarrow> nat \<times> nat \<Rightarrow> context_entry" where
  "make_context text m =
     (let start = nat (max 0 (int (fst m) - 100));
          end' = nat (min (int (length text)) (int (snd m) + 100))
      in \<lparr>context_text = slice text start end', position = fst m\<rparr>)"

definition search_content :: "text_analyzer \<Rightarrow> string \<Rightarrow> string \<Rightarrow> search_result" where
  "search_content self text search_term =
     (if text = [] \<or> search_term = [] then SearchError ''No text or search term provided''
      else
        let matches = finditer search_term text 0
        in if matches = []
           then SearchMessage
                  (''No exact matches found for '' @ [CHR 0x27] @ search_term @ [CHR 0x27])
           else SearchMatches (length matches) (map (make_context text) matches))"

text \<open>
  The occurrences of the term in the text as the specification words them: matches
  between word boundaries, ignoring case, that do not overlap, taken from left to right.
  Every offset of the list is a match, each match ends before the next one begins, and
  a match at an offset that is not in the list overlaps a match of the list that begins
  before it.
\<close>

definition occurrences :: "string \<Rightarrow> string \<Rightarrow> nat list \<Rightarrow> bool" where
  "occurrences search_term text ps =
     (list_all (match_at search_term text) ps
      \<and> sorted_wrt (\<lambda>p q. p + length search_term \<le> q) ps
      \<and> list_all
           (\<lambda>q. match_at search_term text q \<longrightarrow>
                  q \<in> set ps \<or> list_ex (\<lambda>p. p < q \<and> q < p + length search_term) ps)
           [0 ..< Suc (length text)])"

section \<open>Properties of get_text_preview\<close>

text \<open>
  C5, as the specification states it, fails: the bound is a Python \<open>int\<close>, and for a
  negative bound the slice drops characters from the end of the text instead of keeping
  none. On \<open>''abcdef''\<close> with bound \<open>-2\<close> the preview keeps four characters.
\<close>

theorem get_text_preview_negative_counterexample:
  "get_text_preview ''abcdef'' (- 2) = ''abcd...''
   \<and> get_text_preview ''abcdef'' (- 2) \<noteq> take (nat (- 2)) ''abcdef'' @ ''...''"
  by (simp add: get_text_preview_def slice_to_def)

text \<open>
  C5 (amended): the empty text gives the fixed placeholder; a text no longer than the
  bound is returned unchanged; a longer text with a bound that is not negative gives
  exactly its first \<open>max_length\<close> characters followed by the marker \<open>...\<close>; with a
  negative bound the text without its last \<open>-max_length\<close> characters is followed by
  the marker.
\<close>

theorem get_text_preview_spec:
  "(text = [] \<longrightarrow> get_text_preview text max_length = ''No content available'')
   \<and> (text \<noteq> [] \<and> int (length text) \<le> max_length \<longrightarrow>
        get_text_preview text max_length = text)
   \<and> (0 \<le> max_length \<and> max_length < int (length text) \<longrightarrow>
        get_text_preview text max_length = take (nat max_length) text @ ''...''
        \<and> length (take (nat max_length) text) = nat max_length)
   \<and> (text \<noteq> [] \<and> max_length < 0 \<longrightarrow>
        get_text_preview text max_length
          = take (length text - nat (- max_length)) text @ ''...'')"
proof -
  have neg: "max_length < 0 \<Longrightarrow>
      nat (int (length text) + max_length) = length text - nat (- max_length)"
    by arith
  show ?thesis
    by (auto simp: get_text_preview_def slice_to_def neg)
qed

theorem get_text_preview_spec_witness:
  "get_text_preview '''' 5 = ''No content available''
   \<and> get_text_preview ''abcde'' 5 = ''abcde''
   \<and> get_text_preview ''abcdefghij'' 5 = ''abcde...''"
  using get_text_preview_spec [of "''''" 5]
    get_text_preview_spec [of "''abcde''" 5]
    get_text_preview_spec [of "''abcdefghij''" 5]
  by simp

section \<open>Properties of analyze_text\<close>

lemma is_substring_sublist: "is_substring k t = sublist k t"
  by (induction t) (auto simp: sublist_Cons_right)

lemma normalize_scores_nonzero:
  "total_theme_matches \<noteq> 0 \<Longrightarrow>
   normalize_scores scores total_theme_matches
     = Inr (map (\<lambda>(theme, score). (theme, PyFloat (of_nat score / of_nat total_theme_matches))) scores)"
  by (induction scores) (auto simp: py_truediv_def)

lemma analyze_themes_unfold:
  "analyze_themes self text =
     (if sum_list (map snd (raw_scores self text)) > 0
      then normalize_scores (raw_scores self text) (sum_list (map snd (raw_scores self text)))
      else Inr (map (\<lambda>(theme, score). (theme, PyInt (int score))) (raw_scores self text)))"
  unfolding analyze_themes_def raw_scores_def Let_def by (rule refl)

lemma analyze_themes_eq:
  "analyze_themes self text =
     Inr (if 0 < sum_list (map snd (raw_scores self text))
          then map (\<lambda>(theme, score).
                 (theme, PyFloat (of_nat score / of_nat (sum_list (map snd (raw_scores self text))))))
                 (raw_scores self text)
          else map (\<lambda>(theme, score). (theme, PyInt (int score))) (raw_scores self text))"
proof (cases "0 < sum_list (map snd (raw_scores self text))")
  case True
  then have "sum_list (map snd (raw_scores self text)) \<noteq> 0" by (simp only: neq0_conv)
  from normalize_scores_nonzero [OF this] True show ?thesis
    by (simp only: analyze_themes_unfold if_True)
next
  case False
  then show ?thesis
    by (simp only: analyze_themes_unfold if_False)
qed

lemma raw_scores_keys: "map fst (raw_scores self text) = map fst (themes self)"
  by (simp add: raw_scores_def case_prod_unfold comp_def)

lemma keyword_matches_pos:
  "0 < keyword_matches keywords text \<longleftrightarrow> (\<exists>k \<in> set keywords. sublist k text)"
  by (auto simp: keyword_matches_def is_substring_sublist filter_empty_conv)

lemma sum_list_pos_iff: "0 < sum_list (ns :: nat list) \<longleftrightarrow> (\<exists>n \<in> set ns. 0 < n)"
  by (induction ns) auto

lemma raw_total_pos:
  "0 < sum_list (map snd (raw_scores self text))
     \<longleftrightarrow> (\<exists>(theme, keywords) \<in> set (themes self). \<exists>k \<in> set keywords. sublist k text)"
proof -
  have "set (map snd (raw_scores self text))
          = (\<lambda>(theme, keywords). keyword_matches keywords text) ` set (themes self)"
    by (auto simp: raw_scores_def image_iff case_prod_unfold)
  then show ?thesis
    by (simp add: sum_list_pos_iff keyword_matches_pos case_prod_unfold)
qed

lemma sum_normalized:
  "sum_list (map (num_val \<circ> snd)
       (map (\<lambda>(theme, score). (theme, PyFloat (of_nat score / of_nat n))) scores))
     = of_nat (sum_list (map snd scores)) / of_nat n"
  by (induction scores) (auto simp: add_divide_distrib)

lemma language_patterns_total:
  "\<exists>p. analyze_language_patterns text = Inr p
       \<and> sentence_count p = count_runs is_terminator text
       \<and> (count_runs is_terminator text = 0 \<longrightarrow> average_sentence_length p = PyInt 0)"
  by (simp add: analyze_language_patterns_def py_truediv_def)

lemma analyze_body_result:
  assumes "word_tokenize (lower text) = Inr words"
  shows "\<exists>r. analyze_body word_tokenize self text = Inr r
     \<and> analyze_themes self (lower text) = Inr (theme_scores r)
     \<and> analyze_language_patterns text = Inr (patterns r)
     \<and> top_words r
         = most_common 20 (Counter (filter (\<lambda>word. isalnum word \<and> word \<notin> stop_words self) words))"
proof -
  obtain ts where ts: "analyze_themes self (lower text) = Inr ts"
    by (simp add: analyze_themes_eq)
  obtain p where p: "analyze_language_patterns text = Inr p"
    using language_patterns_total by blast
  show ?thesis
    using assms ts p by (simp add: analyze_body_def Let_def py_truediv_def)
qed

lemma analyze_text_result:
  assumes "text \<noteq> []" and "word_tokenize (lower text) = Inr words"
  shows "\<exists>r. analyze_text word_tokenize self text = Analysis r
     \<and> analyze_themes self (lower text) = Inr (theme_scores r)
     \<and> analyze_language_patterns text = Inr (patterns r)
     \<and> top_words r
         = most_common 20 (Counter (filter (\<lambda>word. isalnum word \<and> word \<notin> stop_words self) words))"
proof -
  from analyze_body_result [of word_tokenize "text" words self] assms(2)
  obtain r where r: "analyze_body word_tokenize self text = Inr r"
     and rest: "analyze_themes self (lower text) = Inr (theme_scores r)"
       "analyze_language_patterns text = Inr (patterns r)"
       "top_words r
         = most_common 20 (Counter (filter (\<lambda>word. isalnum word \<and> word \<notin> stop_words self) words))"
    by blast
  from assms(1) r have "analyze_text word_tokenize self text = Analysis r"
    by (simp add: analyze_text_def)
  with rest show ?thesis by blast
qed

lemma rat_of_nat_div_self: "0 < (n::nat) \<Longrightarrow> (of_nat n :: rat) / of_nat n = 1"
  by simp

lemma themes_init:
  "map fst (themes (text_analyzer_init sw))
     = [''community'', ''convenience'', ''location'', ''amenities'', ''lifestyle'',
        ''sustainability'']"
  by (simp add: text_analyzer_init_def)

lemma theme_scores_cases:
  assumes "analyze_themes self text = Inr ts"
  shows "map fst ts = map fst (themes self)"
    and "(\<exists>(theme, keywords) \<in> set (themes self). \<exists>k \<in> set keywords. sublist k text)
           \<Longrightarrow> sum_list (map (num_val \<circ> snd) ts) = 1"
    and "\<not> (\<exists>(theme, keywords) \<in> set (themes self). \<exists>k \<in> set keywords. sublist k text)
           \<Longrightarrow> \<forall>(theme, score) \<in> set ts. score = PyInt 0"
proof -
  let ?raw = "raw_scores self text"
  let ?n = "sum_list (map snd ?raw)"
  from assms have ts: "ts = (if 0 < ?n
          then map (\<lambda>(theme, score). (theme, PyFloat (of_nat score / of_nat ?n))) ?raw
          else map (\<lambda>(theme, score). (theme, PyInt (int score))) ?raw)"
    by (simp only: analyze_themes_eq sum.inject)
  show "map fst ts = map fst (themes self)"
    unfolding ts by (simp add: raw_scores_keys case_prod_unfold comp_def)
  {
    assume "\<exists>(theme, keywords) \<in> set (themes self). \<exists>k \<in> set keywords. sublist k text"
    then have pos: "0 < ?n" using raw_total_pos [of self "text"] by blast
    then have "ts = map (\<lambda>(theme, score). (theme, PyFloat (of_nat score / of_nat ?n))) ?raw"
      by (simp only: ts if_True)
    then have "sum_list (map (num_val \<circ> snd) ts) = of_nat ?n / of_nat ?n"
      by (simp only: sum_normalized)
    with pos show "sum_list (map (num_val \<circ> snd) ts) = 1"
      by (simp only: rat_of_nat_div_self)
  }
  {
    assume "\<not> (\<exists>(theme, keywords) \<in> set (themes self). \<exists>k \<in> set keywords. sublist k text)"
    then have zero: "\<not> 0 < ?n" using raw_total_pos [of self "text"] by blast
    then have eq: "ts = map (\<lambda>(theme, score). (theme, PyInt (int score))) ?raw"
      by (simp only: ts if_False)
    from zero have "\<forall>n \<in> set (map snd ?raw). n = 0"
      by (simp only: sum_list_pos_iff) auto
    then show "\<forall>(theme, score) \<in> set ts. score = PyInt 0"
      unfolding eq by auto
  }
qed

text \<open>
  C2: for a non-empty text on which the tokenizer succeeds, the result has the six fixed
  themes in the order of the table; when some keyword of some theme occurs in the
  lower-cased text as a substring the six scores sum to 1 (exactly, as rationals; the
  tolerance of the claim covers the rounding of floats), and when none occurs every
  score is the raw integer count 0.
\<close>

theorem analyze_text_theme_normalization:
  assumes "text \<noteq> []" and "word_tokenize (lower text) = Inr words"
  shows "\<exists>r. analyze_text word_tokenize (text_analyzer_init sw) text = Analysis r
     \<and> map fst (theme_scores r)
         = [''community'', ''convenience'', ''location'', ''amenities'', ''lifestyle'',
            ''sustainability'']
     \<and> ((\<exists>(theme, keywords) \<in> set (themes (text_analyzer_init sw)).
            \<exists>k \<in> set keywords. sublist k (lower text))
          \<longrightarrow> sum_list (map (num_val \<circ> snd) (theme_scores r)) = 1)
     \<and> (\<not> (\<exists>(theme, keywords) \<in> set (themes (text_analyzer_init sw)).
              \<exists>k \<in> set keywords. sublist k (lower text))
          \<longrightarrow> (\<forall>(theme, score) \<in> set (theme_scores r). score = PyInt 0))"
proof -
  from analyze_text_result [of "text" word_tokenize words "text_analyzer_init sw"] assms
  obtain r where r: "analyze_text word_tokenize (text_analyzer_init sw) text = Analysis r"
    and ts: "analyze_themes (text_analyzer_init sw) (lower text) = Inr (theme_scores r)"
    by blast
  from theme_scores_cases [OF ts] themes_init [of sw] r show ?thesis
    by (intro exI [of _ r] conjI impI) simp_all
qed


theorem analyze_text_theme_normalization_witness:
  "\<exists>r. analyze_text simple_tokenize (text_analyzer_init [''and'']) ''Green energy'' = Analysis r
     \<and> sum_list (map (num_val \<circ> snd) (theme_scores r)) = 1"
proof -
  have ne: "''Green energy'' \<noteq> []" by simp
  have tok: "simple_tokenize (lower ''Green energy'')
               = Inr (split_ws (lower ''Green energy''))"
    by (simp add: simple_tokenize_def)
  have "is_substring ''green'' (lower ''Green energy'')" by code_simp
  then have sub: "sublist ''green'' (lower ''Green energy'')"
    by (simp only: is_substring_sublist)
  have "(''sustainability'', [''sustainable'', ''eco-friendly'', ''green'',
                               ''environmental'', ''energy'', ''recycle''])
          \<in> set (themes (text_analyzer_init [''and'']))"
    by (simp add: text_analyzer_init_def)
  with sub have kw: "\<exists>(theme, keywords) \<in> set (themes (text_analyzer_init [''and''])).
      \<exists>k \<in> set keywords. sublist k (lower ''Green energy'')"
    by force
  from analyze_text_theme_normalization [where word_tokenize = simple_tokenize and sw = "[''and'']", OF ne tok] kw
  show ?thesis by blast
qed

lemma analyze_themes_cong:
  "themes a = themes b \<Longrightarrow> analyze_themes a text = analyze_themes b text"
  by (simp add: analyze_themes_def)

text \<open>
  C3, as the specification states it, fails: on \<open>community community amenities\<close> each
  of the two themes has one keyword present, so both scores are 1/2 and the score of
  \<open>community\<close> is not greater than that of \<open>amenities\<close>.
\<close>

theorem analyze_text_scenario_counterexample:
  "theme_score (analyze_text simple_tokenize (text_analyzer_init [])
        ''community community amenities'') ''community'' = Some (PyFloat (1 / 2))
   \<and> theme_score (analyze_text simple_tokenize (text_analyzer_init [])
        ''community community amenities'') ''amenities'' = Some (PyFloat (1 / 2))
   \<and> \<not> num_val (the (theme_score (analyze_text simple_tokenize (text_analyzer_init [])
            ''community community amenities'') ''amenities''))
        < num_val (the (theme_score (analyze_text simple_tokenize (text_analyzer_init [])
            ''community community amenities'') ''community''))"
  by code_simp

text \<open>
  C3 (amended): whenever the tokenizer succeeds on it, the analysis of
  \<open>community community amenities\<close> gives the themes \<open>community\<close> and
  \<open>amenities\<close> the same score 1/2, whatever the stopwords: a keyword counts once
  however often it occurs.
\<close>

theorem analyze_text_scenario:
  assumes "word_tokenize (lower ''community community amenities'') = Inr words"
  shows "theme_score (analyze_text word_tokenize (text_analyzer_init sw)
             ''community community amenities'') ''community'' = Some (PyFloat (1 / 2))
     \<and> theme_score (analyze_text word_tokenize (text_analyzer_init sw)
             ''community community amenities'') ''amenities'' = Some (PyFloat (1 / 2))"
proof -
  have ne: "''community community amenities'' \<noteq> []" by simp
  from analyze_text_result [where word_tokenize = word_tokenize and self = "text_analyzer_init sw", OF ne assms]
  obtain r where
    r: "analyze_text word_tokenize (text_analyzer_init sw) ''community community amenities''
          = Analysis r"
    and ts: "analyze_themes (text_analyzer_init sw) (lower ''community community amenities'')
          = Inr (theme_scores r)"
    by blast
  have "themes (text_analyzer_init sw) = themes (text_analyzer_init [])"
    by (simp add: text_analyzer_init_def)
  from analyze_themes_cong [OF this]
  have "analyze_themes (text_analyzer_init sw) (lower ''community community amenities'')
          = analyze_themes (text_analyzer_init []) (lower ''community community amenities'')" .
  also have "\<dots> = Inr [(''community'', PyFloat (1 / 2)), (''convenience'', PyFloat 0),
        (''location'', PyFloat 0), (''amenities'', PyFloat (1 / 2)),
        (''lifestyle'', PyFloat 0), (''sustainability'', PyFloat 0)]"
    by code_simp
  finally have "theme_scores r = [(''community'', PyFloat (1 / 2)), (''convenience'', PyFloat 0),
        (''location'', PyFloat 0), (''amenities'', PyFloat (1 / 2)),
        (''lifestyle'', PyFloat 0), (''sustainability'', PyFloat 0)]"
    using ts by simp
  with r show ?thesis by (simp add: theme_score_def)
qed

theorem analyze_text_scenario_witness:
  "theme_score (analyze_text simple_tokenize (text_analyzer_init [''the''])
        ''community community amenities'') ''community'' = Some (PyFloat (1 / 2))
   \<and> theme_score (analyze_text simple_tokenize (text_analyzer_init [''the''])
        ''community community amenities'') ''amenities'' = Some (PyFloat (1 / 2))"
proof -
  have "simple_tokenize (lower ''community community amenities'')
          = Inr (split_ws (lower ''community community amenities''))"
    by (simp add: simple_tokenize_def)
  from analyze_text_scenario [where word_tokenize = simple_tokenize, OF this] show ?thesis .
qed

lemma count_runs_zero: "count_runs P s = 0 \<longleftrightarrow> (\<forall>c \<in> set s. \<not> P c)"
  by (induction P s rule: count_runs.induct) auto

text \<open>
  C8: for a non-empty text without \<open>.\<close>, \<open>!\<close> and \<open>?\<close> on which the tokenizer
  succeeds, the language patterns of the result have \<open>sentence_count = 0\<close> and
  \<open>average_sentence_length = 0\<close> (the integer), and computing them raised nothing;
  on no text at all does the computation of the language patterns raise, so the
  division never sees a zero divisor.
\<close>

theorem analyze_text_no_terminator:
  assumes "text \<noteq> []" and "word_tokenize (lower text) = Inr words"
    and "CHR ''.'' \<notin> set text" and "CHR ''!'' \<notin> set text" and "CHR ''?'' \<notin> set text"
  shows "(\<exists>r. analyze_text word_tokenize self text = Analysis r
            \<and> analyze_language_patterns text = Inr (patterns r)
            \<and> sentence_count (patterns r) = 0
            \<and> average_sentence_length (patterns r) = PyInt 0)
         \<and> (\<forall>t. \<exists>p. analyze_language_patterns t = Inr p)"
proof -
  from assms(3-5) have "\<forall>c \<in> set text. \<not> is_terminator c"
    by (auto simp: is_terminator_def)
  then have zero: "count_runs is_terminator text = 0"
    by (simp only: count_runs_zero)
  from analyze_text_result [where word_tokenize = word_tokenize and self = self, OF assms(1,2)]
  obtain r where r: "analyze_text word_tokenize self text = Analysis r"
    and p: "analyze_language_patterns text = Inr (patterns r)"
    by blast
  from language_patterns_total [of "text"] p zero
  have "sentence_count (patterns r) = 0" "average_sentence_length (patterns r) = PyInt 0"
    by auto
  moreover have "\<forall>t. \<exists>p. analyze_language_patterns t = Inr p"
    using language_patterns_total by blast
  ultimately show ?thesis using r p by blast
qed

theorem analyze_text_no_terminator_witness:
  "\<exists>r. analyze_text simple_tokenize (text_analyzer_init [''the'']) ''no sentence here''
          = Analysis r
       \<and> sentence_count (patterns r) = 0
       \<and> average_sentence_length (patterns r) = PyInt 0"
proof -
  have ne: "''no sentence here'' \<noteq> []" by simp
  have tok: "simple_tokenize (lower ''no sentence here'')
               = Inr (split_ws (lower ''no sentence here''))"
    by (simp add: simple_tokenize_def)
  have a: "CHR ''.'' \<notin> set ''no sentence here''"
    and b: "CHR ''!'' \<notin> set ''no sentence here''"
    and c: "CHR ''?'' \<notin> set ''no sentence here''"
    by simp_all
  from analyze_text_no_terminator [where word_tokenize = simple_tokenize and self = "text_analyzer_init [''the'']", OF ne tok a b c]
  show ?thesis by blast
qed

subsection \<open>The most frequent words\<close>

lemma counter_add_keys:
  "map fst (counter_add w cs) = (if w \<in> set (map fst cs) then map fst cs else map fst cs @ [w])"
proof (induction cs)
  case Nil
  show ?case by simp
next
  case (Cons kc cs)
  obtain k c where kc: "kc = (k, c)" by (cases kc)
  show ?case
  proof (cases "k = w")
    case True
    with kc show ?thesis by simp
  next
    case False
    with kc Cons show ?thesis by simp
  qed
qed

lemma counter_add_map_of:
  "map_of (counter_add w cs)
     = (map_of cs)(w \<mapsto> (case map_of cs w of None \<Rightarrow> 1 | Some c \<Rightarrow> Suc c))"
  by (induction cs) (auto simp: fun_eq_iff)

lemma Counter_snoc: "Counter (ws @ [w]) = counter_add w (Counter ws)"
  by (simp add: Counter_def)

lemma Counter_keys: "set (map fst (Counter ws)) = set ws \<and> distinct (map fst (Counter ws))"
proof (induction ws rule: rev_induct)
  case Nil
  show ?case by (simp add: Counter_def)
next
  case (snoc w ws)
  then show ?case by (auto simp: Counter_snoc counter_add_keys)
qed

lemma Counter_map_of:
  "map_of (Counter ws) k = (if k \<in> set ws then Some (count_list ws k) else None)"
proof (induction ws rule: rev_induct)
  case Nil
  show ?case by (simp add: Counter_def)
next
  case (snoc w ws)
  then show ?case by (auto simp: Counter_snoc counter_add_map_of)
qed

lemma Counter_entry:
  assumes "(k, c) \<in> set (Counter ws)"
  shows "k \<in> set ws \<and> c = count_list ws k \<and> 1 \<le> c"
proof -
  from Counter_keys [of ws] have "distinct (map fst (Counter ws))" by simp
  with assms have "map_of (Counter ws) k = Some c" by simp
  then have "k \<in> set ws" and "c = count_list ws k"
    by (auto simp: Counter_map_of split: if_splits)
  moreover from \<open>k \<in> set ws\<close> have "0 < count_list ws k"
    using count_list_0_iff [of ws k] by simp
  ultimately show ?thesis by simp
qed

lemma first_seen_append:
  "first_seen (xs @ ys) k
     = (if k \<in> set xs then first_seen xs k else length xs + first_seen ys k)"
  by (induction xs) auto

lemma first_seen_less: "k \<in> set xs \<Longrightarrow> first_seen xs k < length xs"
  by (induction xs) auto

lemma Counter_first_seen:
  "sorted_wrt (\<lambda>a b. first_seen ws a < first_seen ws b) (map fst (Counter ws))"
proof (induction ws rule: rev_induct)
  case Nil
  show ?case by (simp add: Counter_def)
next
  case (snoc w ws)
  have keys: "set (map fst (Counter ws)) = set ws" using Counter_keys [of ws] by simp
  have old: "sorted_wrt (\<lambda>a b. first_seen (ws @ [w]) a < first_seen (ws @ [w]) b)
               (map fst (Counter ws))"
    using snoc keys
    by (auto simp: first_seen_append elim!: sorted_wrt_mono_rel [rotated])
  show ?case
  proof (cases "w \<in> set ws")
    case True
    with old keys show ?thesis by (simp add: Counter_snoc counter_add_keys)
  next
    case False
    with keys have "\<forall>k \<in> set (map fst (Counter ws)).
        first_seen (ws @ [w]) k < first_seen (ws @ [w]) w"
      by (auto simp: first_seen_append first_seen_less)
    with old False keys show ?thesis
      by (simp add: Counter_snoc counter_add_keys sorted_wrt_append)
  qed
qed

lemma insort_key_stable:
  assumes "sorted (map f ys)"
    and "sorted_wrt (\<lambda>a b. f a < f b \<or> (f a = f b \<and> P a b)) ys"
    and "\<forall>y \<in> set ys. P x y"
  shows "sorted_wrt (\<lambda>a b. f a < f b \<or> (f a = f b \<and> P a b)) (insort_key f x ys)"
  using assms
proof (induction ys)
  case Nil
  show ?case by simp
next
  case (Cons y ys)
  show ?case
  proof (cases "f x \<le> f y")
    case True
    with Cons.prems show ?thesis by (auto simp: le_less)
  next
    case False
    with Cons show ?thesis by (auto simp: set_insort_key)
  qed
qed

lemma sort_key_stable_wrt:
  fixes f :: "'a \<Rightarrow> int"
  assumes "sorted_wrt P xs"
  shows "sorted_wrt (\<lambda>a b. f a < f b \<or> (f a = f b \<and> P a b)) (sort_key f xs)"
  using assms
proof (induction xs)
  case Nil
  show ?case by simp
next
  case (Cons x xs)
  then have "sorted_wrt (\<lambda>a b. f a < f b \<or> (f a = f b \<and> P a b)) (sort_key f xs)"
    and "\<forall>y \<in> set (sort_key f xs). P x y"
    by simp_all
  with insort_key_stable [of f "sort_key f xs" P x] show ?case
    by simp
qed

lemma first_seen_filter:
  "P a \<Longrightarrow> P b \<Longrightarrow>
   (first_seen (filter P ws) a < first_seen (filter P ws) b)
     = (first_seen ws a < first_seen ws b)"
  by (induction ws) auto

lemma count_list_filter_in: "P w \<Longrightarrow> count_list (filter P ws) w = count_list ws w"
  by (induction ws) auto

lemma sorted_wrt_take_prefix: "sorted_wrt R xs \<Longrightarrow> sorted_wrt R (take n xs)"
  by (metis append_take_drop_id sorted_wrt_append)

lemma most_common_props:
  assumes "sorted_wrt Q (map fst counts)" and "distinct (map fst counts)"
  shows "length (most_common n counts) \<le> n"
    and "set (most_common n counts) \<subseteq> set counts"
    and "distinct (map fst (most_common n counts))"
    and "sorted_wrt (\<lambda>a b. snd b < snd a \<or> (snd a = snd b \<and> Q (fst a) (fst b)))
           (most_common n counts)"
proof -
  let ?f = "\<lambda>item :: 'a \<times> nat. - int (snd item)"
  let ?S = "sort_key ?f counts"
  show "length (most_common n counts) \<le> n" by (simp add: most_common_def)
  show "set (most_common n counts) \<subseteq> set counts"
    using set_take_subset [of n ?S] by (simp add: most_common_def)
  from assms(2) have "distinct counts" and "inj_on fst (set counts)"
    by (simp_all add: distinct_map)
  then have "distinct (map fst ?S)" by (simp add: distinct_map)
  then show "distinct (map fst (most_common n counts))"
    by (simp add: most_common_def take_map [symmetric])
  from assms(1) have "sorted_wrt (\<lambda>a b. Q (fst a) (fst b)) counts"
    by (simp add: sorted_wrt_map)
  from sort_key_stable_wrt [OF this, of ?f]
  have "sorted_wrt (\<lambda>a b. ?f a < ?f b \<or> (?f a = ?f b \<and> Q (fst a) (fst b))) ?S" .
  then have "sorted_wrt (\<lambda>a b. snd b < snd a \<or> (snd a = snd b \<and> Q (fst a) (fst b))) ?S"
    by (rule sorted_wrt_mono_rel [rotated]) auto
  then show "sorted_wrt (\<lambda>a b. snd b < snd a \<or> (snd a = snd b \<and> Q (fst a) (fst b)))
           (most_common n counts)"
    unfolding most_common_def by (rule sorted_wrt_take_prefix)
qed

text \<open>
  C4: for a non-empty text on which the tokenizer succeeds, \<open>top_words\<close> has at most
  20 entries with distinct keys; every entry maps a token that is alphanumeric and no
  stopword to its frequency among the tokens, which is at least 1; and the entries are
  ordered by decreasing frequency, those of equal frequency by the position at which
  the word is first seen among the tokens.
\<close>

theorem analyze_text_top_words:
  assumes "text \<noteq> []" and "word_tokenize (lower text) = Inr words"
  shows "\<exists>r. analyze_text word_tokenize self text = Analysis r
     \<and> length (top_words r) \<le> 20
     \<and> distinct (map fst (top_words r))
     \<and> (\<forall>(w, c) \<in> set (top_words r).
           1 \<le> c \<and> c = count_list words w \<and> w \<notin> stop_words self \<and> isalnum w)
     \<and> sorted_wrt (\<lambda>(w1, c1) (w2, c2).
           c2 < c1 \<or> (c1 = c2 \<and> first_seen words w1 < first_seen words w2))
         (top_words r)"
proof -
  let ?P = "\<lambda>word. isalnum word \<and> word \<notin> stop_words self"
  let ?fw = "filter ?P words"
  let ?C = "Counter ?fw"
  from analyze_text_result [where word_tokenize = word_tokenize and self = self, OF assms]
  obtain r where r: "analyze_text word_tokenize self text = Analysis r"
    and top: "top_words r = most_common 20 ?C"
    by blast
  have sorted_keys: "sorted_wrt (\<lambda>a b. first_seen ?fw a < first_seen ?fw b) (map fst ?C)"
    by (rule Counter_first_seen)
  have dist: "distinct (map fst ?C)" using Counter_keys [of ?fw] by simp
  note mc = most_common_props [OF sorted_keys dist, of 20]
  have entry: "1 \<le> c \<and> c = count_list words w \<and> ?P w" if "(w, c) \<in> set (top_words r)" for w c
  proof -
    from that top mc(2) have "(w, c) \<in> set ?C" by auto
    from Counter_entry [OF this] have in_fw: "w \<in> set ?fw" and c: "c = count_list ?fw w" "1 \<le> c"
      by simp_all
    from in_fw have "?P w" by simp
    with c show ?thesis by (simp add: count_list_filter_in)
  qed
  have "sorted_wrt (\<lambda>a b. snd b < snd a
           \<or> (snd a = snd b \<and> first_seen ?fw (fst a) < first_seen ?fw (fst b))) (top_words r)"
    unfolding top by (rule mc(4))
  then have "sorted_wrt (\<lambda>(w1, c1) (w2, c2).
           c2 < c1 \<or> (c1 = c2 \<and> first_seen words w1 < first_seen words w2)) (top_words r)"
  proof (rule sorted_wrt_mono_rel [rotated])
    fix a b
    assume a: "a \<in> set (top_words r)" and b: "b \<in> set (top_words r)"
      and ab: "snd b < snd a
           \<or> (snd a = snd b \<and> first_seen ?fw (fst a) < first_seen ?fw (fst b))"
    from a entry [of "fst a" "snd a"] have "?P (fst a)" by simp
    moreover from b entry [of "fst b" "snd b"] have "?P (fst b)" by simp
    ultimately have "(first_seen ?fw (fst a) < first_seen ?fw (fst b))
        = (first_seen words (fst a) < first_seen words (fst b))"
      by (rule first_seen_filter)
    with ab show "(case a of (w1, c1) \<Rightarrow> \<lambda>(w2, c2).
           c2 < c1 \<or> (c1 = c2 \<and> first_seen words w1 < first_seen words w2)) b"
      by (simp add: case_prod_unfold)
  qed
  moreover have "length (top_words r) \<le> 20" unfolding top by (rule mc(1))
  moreover have "distinct (map fst (top_words r))" unfolding top by (rule mc(3))
  moreover have "\<forall>(w, c) \<in> set (top_words r).
           1 \<le> c \<and> c = count_list words w \<and> w \<notin> stop_words self \<and> isalnum w"
    using entry by auto
  ultimately show ?thesis using r by blast
qed

theorem analyze_text_top_words_witness:
  "(\<exists>r. analyze_text simple_tokenize (text_analyzer_init [''the'', ''a''])
           ''The cat saw a dog and the dog saw the cat - a DOG'' = Analysis r
     \<and> top_words r = [(''dog'', 3), (''cat'', 2), (''saw'', 2), (''and'', 1)])
   \<and> (\<exists>r. analyze_text simple_tokenize (text_analyzer_init [''the'', ''a''])
           (''The '' @ [CHR 0xC9] @ ''cole - a school'' @ [CHR 0xA0] @ [CHR 0xE9] @ ''cole'')
         = Analysis r
     \<and> top_words r = [([CHR 0xE9] @ ''cole'', 2), (''school'', 1)])"
proof -
  let ?s = "''The cat saw a dog and the dog saw the cat - a DOG''"
  let ?t = "''The '' @ [CHR 0xC9] @ ''cole - a school'' @ [CHR 0xA0] @ [CHR 0xE9] @ ''cole''"
  have ne: "?s \<noteq> []" "?t \<noteq> []" by simp_all
  have tok: "simple_tokenize (lower ?s) = Inr (split_ws (lower ?s))"
    and tok': "simple_tokenize (lower ?t) = Inr (split_ws (lower ?t))"
    by (simp_all add: simple_tokenize_def)
  from analyze_text_top_words [where word_tokenize = simple_tokenize
      and self = "text_analyzer_init [''the'', ''a'']", OF ne(1) tok]
  obtain r where r: "analyze_text simple_tokenize (text_analyzer_init [''the'', ''a'']) ?s
           = Analysis r"
    by blast
  from analyze_text_top_words [where word_tokenize = simple_tokenize
      and self = "text_analyzer_init [''the'', ''a'']", OF ne(2) tok']
  obtain r' where r': "analyze_text simple_tokenize (text_analyzer_init [''the'', ''a'']) ?t
           = Analysis r'"
    by blast
  have "(case analyze_text simple_tokenize (text_analyzer_init [''the'', ''a'']) ?s of
           Analysis a \<Rightarrow> top_words a
         | AnalysisError msg \<Rightarrow> [])
       = [(''dog'', 3), (''cat'', 2), (''saw'', 2), (''and'', 1)]"
    by code_simp
  with r have a: "top_words r = [(''dog'', 3), (''cat'', 2), (''saw'', 2), (''and'', 1)]"
    by simp
  have "(case analyze_text simple_tokenize (text_analyzer_init [''the'', ''a'']) ?t of
           Analysis a \<Rightarrow> top_words a
         | AnalysisError msg \<Rightarrow> [])
       = [([CHR 0xE9] @ ''cole'', 2), (''school'', 1)]"
    by code_simp
  with r' have b: "top_words r' = [([CHR 0xE9] @ ''cole'', 2), (''school'', 1)]"
    by simp
  from r a r' b show ?thesis by blast
qed

section \<open>Properties of search_content\<close>

lemma finditer_sound:
  "m \<in> set (finditer st t pos) \<Longrightarrow>
   pos \<le> fst m \<and> match_at st t (fst m) \<and> snd m = fst m + length st"
proof (induction st t pos rule: finditer.induct)
  case (1 st t pos)
  show ?case
  proof (cases "length t < pos")
    case True
    with "1.prems" show ?thesis by (simp add: finditer.simps [of st t pos])
  next
    case inside: False
    show ?thesis
    proof (cases "match_at st t pos")
      case True
      with inside "1.prems"
      have "m = (pos, pos + length st)
            \<or> m \<in> set (finditer st t (pos + max 1 (length st)))"
        by (simp add: finditer.simps [of st t pos])
      then show ?thesis
      proof
        assume "m = (pos, pos + length st)"
        with True show ?thesis by simp
      next
        assume "m \<in> set (finditer st t (pos + max 1 (length st)))"
        from "1.IH"(1) [OF inside True this] show ?thesis by simp
      qed
    next
      case False
      with inside "1.prems" have "m \<in> set (finditer st t (Suc pos))"
        by (simp add: finditer.simps [of st t pos])
      from "1.IH"(2) [OF inside False this] show ?thesis by simp
    qed
  qed
qed

lemma finditer_sorted:
  "sorted_wrt (\<lambda>a b. snd a \<le> fst b \<and> fst a < fst b) (finditer st t pos)"
proof (induction st t pos rule: finditer.induct)
  case (1 st t pos)
  show ?case
  proof (cases "length t < pos")
    case True
    then show ?thesis by (simp add: finditer.simps [of st t pos])
  next
    case inside: False
    show ?thesis
    proof (cases "match_at st t pos")
      case True
      have "\<forall>m \<in> set (finditer st t (pos + max 1 (length st))).
              pos + length st \<le> fst m \<and> pos < fst m"
        using finditer_sound [of _ st t "pos + max 1 (length st)"] by fastforce
      with "1.IH"(1) [OF inside True] inside True show ?thesis
        by (simp add: finditer.simps [of st t pos])
    next
      case False
      with "1.IH"(2) [OF inside False] inside show ?thesis
        by (simp add: finditer.simps [of st t pos])
    qed
  qed
qed

lemma finditer_complete:
  "pos \<le> p \<Longrightarrow> match_at st t p \<Longrightarrow>
   \<exists>m \<in> set (finditer st t pos). fst m \<le> p \<and> p < fst m + max 1 (length st)"
proof (induction st t pos rule: finditer.induct)
  case (1 st t pos)
  from "1.prems"(2) have bound: "p \<le> length t" by (simp add: match_at_def)
  with "1.prems"(1) have inside: "\<not> length t < pos" by simp
  show ?case
  proof (cases "match_at st t pos")
    case True
    show ?thesis
    proof (cases "p < pos + max 1 (length st)")
      case True
      with \<open>match_at st t pos\<close> inside "1.prems"(1) show ?thesis
        by (simp add: finditer.simps [of st t pos])
    next
      case False
      then have "pos + max 1 (length st) \<le> p" by simp
      from "1.IH"(1) [OF inside True this "1.prems"(2)] inside True show ?thesis
        by (simp add: finditer.simps [of st t pos])
    qed
  next
    case False
    with "1.prems" have "Suc pos \<le> p" by (cases "p = pos") auto
    from "1.IH"(2) [OF inside False this "1.prems"(2)] inside False show ?thesis
      by (simp add: finditer.simps [of st t pos])
  qed
qed

lemma finditer_empty_iff:
  "finditer st t 0 = [] \<longleftrightarrow> (\<forall>p. \<not> match_at st t p)"
proof
  assume empty: "finditer st t 0 = []"
  show "\<forall>p. \<not> match_at st t p"
  proof (intro allI notI)
    fix p assume "match_at st t p"
    from finditer_complete [of 0 p st t, OF _ this] empty show False by simp
  qed
next
  assume none: "\<forall>p. \<not> match_at st t p"
  show "finditer st t 0 = []"
  proof (rule ccontr)
    assume "finditer st t 0 \<noteq> []"
    then obtain m where "m \<in> set (finditer st t 0)" by (cases "finditer st t 0") auto
    from finditer_sound [OF this] none show False by simp
  qed
qed

lemma sublist_slice: "sublist (slice xs i j) xs"
proof -
  have "xs = take i xs @ drop i xs" by simp
  also have "drop i xs = slice xs i j @ drop (j - i) (drop i xs)"
    unfolding slice_def by (rule append_take_drop_id [symmetric])
  finally have "xs = take i xs @ slice xs i j @ drop (j - i) (drop i xs)" .
  then show ?thesis unfolding sublist_def by blast
qed

lemma length_slice: "length (slice xs i j) \<le> j - i"
  by (simp add: slice_def)

lemma make_context_props:
  assumes "snd m = fst m + n"
  shows "position (make_context t m) = fst m"
    and "sublist (context_text (make_context t m)) t"
    and "length (context_text (make_context t m)) \<le> n + 200"
proof -
  show "position (make_context t m) = fst m" by (simp add: make_context_def Let_def)
  show "sublist (context_text (make_context t m)) t"
    by (simp add: make_context_def Let_def sublist_slice)
  have "length (context_text (make_context t m))
          \<le> nat (min (int (length t)) (int (snd m) + 100)) - nat (max 0 (int (fst m) - 100))"
    by (simp add: make_context_def Let_def length_slice)
  also from assms have "\<dots> \<le> n + 200" by arith
  finally show "length (context_text (make_context t m)) \<le> n + 200" .
qed

lemma match_at_bound: "match_at st t q \<Longrightarrow> q < Suc (length t)"
  by (simp add: match_at_def)

lemma all_match_offsets:
  "(\<forall>q \<in> set [0 ..< Suc (length t)]. match_at st t q \<longrightarrow> R q)
     = (\<forall>q. match_at st t q \<longrightarrow> R q)"
proof
  assume l: "\<forall>q \<in> set [0 ..< Suc (length t)]. match_at st t q \<longrightarrow> R q"
  show "\<forall>q. match_at st t q \<longrightarrow> R q"
  proof (intro allI impI)
    fix q assume m: "match_at st t q"
    then have "q < Suc (length t)" by (rule match_at_bound)
    then have "q \<in> set [0 ..< Suc (length t)]" by (simp only: set_upt atLeastLessThan_iff) simp
    with l m show "R q" by blast
  qed
next
  assume "\<forall>q. match_at st t q \<longrightarrow> R q"
  then show "\<forall>q \<in> set [0 ..< Suc (length t)]. match_at st t q \<longrightarrow> R q" by blast
qed

lemma occurrences_iff:
  "occurrences st t ps \<longleftrightarrow>
     (\<forall>p \<in> set ps. match_at st t p)
     \<and> sorted_wrt (\<lambda>p q. p + length st \<le> q) ps
     \<and> (\<forall>q. match_at st t q \<longrightarrow> q \<in> set ps \<or> (\<exists>p \<in> set ps. p < q \<and> q < p + length st))"
  unfolding occurrences_def list_all_iff list_ex_iff
  by (simp only: all_match_offsets)

lemma finditer_unique:
  assumes "st \<noteq> []"
    and "\<forall>p \<in> set ps. pos \<le> p \<and> match_at st t p"
    and "sorted_wrt (\<lambda>p q. p + length st \<le> q) ps"
    and "\<forall>q. pos \<le> q \<and> match_at st t q \<longrightarrow>
           q \<in> set ps \<or> (\<exists>p \<in> set ps. p < q \<and> q < p + length st)"
  shows "map fst (finditer st t pos) = ps"
  using assms
proof (induction st t pos arbitrary: ps rule: finditer.induct)
  case (1 st t pos)
  have n: "0 < length st" using "1.prems"(1) by simp
  then have mx: "max 1 (length st) = length st" by (simp add: max_def Suc_le_eq)
  show ?case
  proof (cases "length t < pos")
    case True
    have "ps = []"
    proof (cases ps)
      case Nil
      then show ?thesis .
    next
      case (Cons p ps')
      with "1.prems"(2) have "pos \<le> p" and "match_at st t p" by simp_all
      with True show ?thesis by (simp add: match_at_def)
    qed
    with True show ?thesis by (simp add: finditer.simps [of st t pos])
  next
    case inside: False
    show ?thesis
    proof (cases "match_at st t pos")
      case True
      from "1.prems"(4) True have "pos \<in> set ps \<or> (\<exists>p \<in> set ps. p < pos \<and> pos < p + length st)"
        by simp
      with "1.prems"(2) have mem: "pos \<in> set ps" by auto
      obtain p ps' where ps: "ps = p # ps'" using mem by (cases ps) auto
      have head: "p = pos"
      proof (rule ccontr)
        assume "p \<noteq> pos"
        with mem ps have "pos \<in> set ps'" by simp
        with "1.prems"(3) ps have "p + length st \<le> pos" by simp
        moreover from "1.prems"(2) ps have "pos \<le> p" by simp
        ultimately show False using n by simp
      qed
      have later: "\<forall>q \<in> set ps'. pos + length st \<le> q"
        using "1.prems"(3) ps head by simp
      have a: "\<forall>q \<in> set ps'. pos + max 1 (length st) \<le> q \<and> match_at st t q"
        unfolding mx using later "1.prems"(2) ps by simp
      have b: "sorted_wrt (\<lambda>p q. p + length st \<le> q) ps'"
        using "1.prems"(3) ps by simp
      have c: "\<forall>q. pos + max 1 (length st) \<le> q \<and> match_at st t q \<longrightarrow>
           q \<in> set ps' \<or> (\<exists>p \<in> set ps'. p < q \<and> q < p + length st)"
      proof (intro allI impI)
        fix q assume q: "pos + max 1 (length st) \<le> q \<and> match_at st t q"
        then have far: "pos + length st \<le> q" unfolding mx by simp
        from q n have "pos \<le> q" by simp
        with q "1.prems"(4)
        have "q \<in> set ps \<or> (\<exists>p \<in> set ps. p < q \<and> q < p + length st)" by simp
        with far n ps head
        show "q \<in> set ps' \<or> (\<exists>p \<in> set ps'. p < q \<and> q < p + length st)" by auto
      qed
      from "1.IH"(1) [OF inside True "1.prems"(1) a b c]
      have "map fst (finditer st t (pos + max 1 (length st))) = ps'" .
      with inside True ps head show ?thesis
        by (simp add: finditer.simps [of st t pos])
    next
      case False
      have a: "\<forall>p \<in> set ps. Suc pos \<le> p \<and> match_at st t p"
      proof
        fix p assume "p \<in> set ps"
        with "1.prems"(2) have "pos \<le> p" and m: "match_at st t p" by simp_all
        with False have "p \<noteq> pos" by auto
        with \<open>pos \<le> p\<close> m show "Suc pos \<le> p \<and> match_at st t p" by simp
      qed
      have c: "\<forall>q. Suc pos \<le> q \<and> match_at st t q \<longrightarrow>
           q \<in> set ps \<or> (\<exists>p \<in> set ps. p < q \<and> q < p + length st)"
        using "1.prems"(4) by simp
      from "1.IH"(2) [OF inside False "1.prems"(1) a "1.prems"(3) c]
      have "map fst (finditer st t (Suc pos)) = ps" .
      with inside False show ?thesis
        by (simp add: finditer.simps [of st t pos])
    qed
  qed
qed

lemma occurrences_unique:
  assumes "st \<noteq> []" and "occurrences st t ps"
  shows "map fst (finditer st t 0) = ps"
proof -
  from assms(2) have "\<forall>p \<in> set ps. 0 \<le> p \<and> match_at st t p"
    and "sorted_wrt (\<lambda>p q. p + length st \<le> q) ps"
    and "\<forall>q. 0 \<le> q \<and> match_at st t q \<longrightarrow>
           q \<in> set ps \<or> (\<exists>p \<in> set ps. p < q \<and> q < p + length st)"
    by (simp_all add: occurrences_iff)
  from finditer_unique [OF assms(1) this] show ?thesis .
qed

lemma occurrences_finditer:
  assumes "st \<noteq> []"
  shows "occurrences st t (map fst (finditer st t 0))"
proof -
  let ?ms = "finditer st t 0"
  have n: "0 < length st" using assms by simp
  then have mx: "max 1 (length st) = length st" by (simp add: max_def Suc_le_eq)
  have snd_eq: "\<forall>m \<in> set ?ms. snd m = fst m + length st"
    using finditer_sound [of _ st t 0] by blast
  have "\<forall>p \<in> set (map fst ?ms). match_at st t p"
    using finditer_sound [of _ st t 0] by auto
  moreover have "sorted_wrt (\<lambda>a b. fst a + length st \<le> fst b) ?ms"
    using finditer_sorted [of st t 0] snd_eq
    by (auto elim!: sorted_wrt_mono_rel [rotated])
  then have "sorted_wrt (\<lambda>p q. p + length st \<le> q) (map fst ?ms)"
    by (simp add: sorted_wrt_map)
  moreover have "\<forall>q. match_at st t q \<longrightarrow>
      q \<in> set (map fst ?ms) \<or> (\<exists>p \<in> set (map fst ?ms). p < q \<and> q < p + length st)"
  proof (intro allI impI)
    fix q assume "match_at st t q"
    from finditer_complete [of 0 q st t, OF _ this]
    obtain m where m: "m \<in> set ?ms" "fst m \<le> q" "q < fst m + length st"
      unfolding mx by auto
    then have "q = fst m \<or> (fst m < q \<and> q < fst m + length st)" by auto
    with m(1) show "q \<in> set (map fst ?ms)
        \<or> (\<exists>p \<in> set (map fst ?ms). p < q \<and> q < p + length st)"
      by auto
  qed
  ultimately show ?thesis by (simp only: occurrences_iff) 
qed

text \<open>
  C7: with an empty text or an empty term the result is the error field; when the term
  matches at no offset of the text (between word boundaries, ignoring case) the result
  is the message field, neither an error nor an exception; when the term occurs \<open>N > 0\<close>
  times, \<open>ps\<close> being its non-overlapping occurrences from left to right, the result
  has \<open>total_matches = N\<close> and exactly \<open>N\<close> context entries, whose positions are
  \<open>ps\<close>. For a non-empty term the occurrences exist, and there are none exactly when
  the term matches nowhere, so the last two cases cover every search.
\<close>

theorem search_content_shape:
  "(text = [] \<or> search_term = [] \<longrightarrow>
      search_content self text search_term = SearchError ''No text or search term provided'')
   \<and> (text \<noteq> [] \<and> search_term \<noteq> [] \<and> (\<forall>p. \<not> match_at search_term text p) \<longrightarrow>
      search_content self text search_term
        = SearchMessage (''No exact matches found for '' @ [CHR 0x27] @ search_term @ [CHR 0x27]))
   \<and> (text \<noteq> [] \<and> search_term \<noteq> [] \<and> occurrences search_term text ps
        \<and> length ps = N \<and> 0 < N \<longrightarrow>
      (\<exists>cs. search_content self text search_term = SearchMatches N cs
            \<and> length cs = N \<and> map position cs = ps))
   \<and> (search_term \<noteq> [] \<longrightarrow>
      (\<exists>qs. occurrences search_term text qs
            \<and> (qs = [] \<longleftrightarrow> (\<forall>p. \<not> match_at search_term text p))))"
proof (intro conjI impI)
  assume "text = [] \<or> search_term = []"
  then show "search_content self text search_term
               = SearchError ''No text or search term provided''"
    by (auto simp: search_content_def)
next
  assume h: "text \<noteq> [] \<and> search_term \<noteq> [] \<and> (\<forall>p. \<not> match_at search_term text p)"
  then have "finditer search_term text 0 = []"
    using finditer_empty_iff [of search_term "text"] by blast
  with h show "search_content self text search_term
        = SearchMessage (''No exact matches found for '' @ [CHR 0x27] @ search_term @ [CHR 0x27])"
    by (simp add: search_content_def)
next
  assume h: "text \<noteq> [] \<and> search_term \<noteq> [] \<and> occurrences search_term text ps
             \<and> length ps = N \<and> 0 < N"
  then have ps: "map fst (finditer search_term text 0) = ps"
    by (intro occurrences_unique) simp_all
  with h have ne: "finditer search_term text 0 \<noteq> []" by auto
  from ps h have len: "length (finditer search_term text 0) = N"
    by (metis length_map)
  let ?cs = "map (make_context text) (finditer search_term text 0)"
  from h ne len have "search_content self text search_term = SearchMatches N ?cs"
    by (simp add: search_content_def Let_def)
  moreover have "length ?cs = N" using len by simp
  moreover have "map position ?cs = ps"
    using ps by (simp add: make_context_def Let_def comp_def)
  ultimately show "\<exists>cs. search_content self text search_term = SearchMatches N cs
            \<and> length cs = N \<and> map position cs = ps"
    by blast
next
  assume ne: "search_term \<noteq> []"
  let ?qs = "map fst (finditer search_term text 0)"
  have "occurrences search_term text ?qs" using ne by (rule occurrences_finditer)
  moreover have "?qs = [] \<longleftrightarrow> (\<forall>p. \<not> match_at search_term text p)"
    using finditer_empty_iff [of search_term "text"] by simp
  ultimately show "\<exists>qs. occurrences search_term text qs
            \<and> (qs = [] \<longleftrightarrow> (\<forall>p. \<not> match_at search_term text p))"
    by blast
qed

theorem search_content_shape_witness:
  "search_content (text_analyzer_init []) [] ''cat''
     = SearchError ''No text or search term provided''
   \<and> search_content (text_analyzer_init []) (''caf'' @ [CHR 0xE9] @ '' bar'') ''caf''
     = SearchMessage (''No exact matches found for '' @ [CHR 0x27] @ ''caf'' @ [CHR 0x27])
   \<and> (\<exists>cs. search_content (text_analyzer_init []) ''The cat sat. CAT! concat cat'' ''cat''
              = SearchMatches 3 cs \<and> length cs = 3 \<and> map position cs = [4, 13, 25])
   \<and> (\<exists>cs. search_content (text_analyzer_init []) ([CHR 0xC9] @ ''t'' @ [CHR 0xE9])
                ([CHR 0xE9] @ ''t'' @ [CHR 0xE9])
              = SearchMatches 1 cs \<and> length cs = 1 \<and> map position cs = [0])"
proof -
  have "finditer ''caf'' (''caf'' @ [CHR 0xE9] @ '' bar'') 0 = []" by code_simp
  then have none: "\<forall>p. \<not> match_at ''caf'' (''caf'' @ [CHR 0xE9] @ '' bar'') p"
    using finditer_empty_iff [of "''caf''" "''caf'' @ [CHR 0xE9] @ '' bar''"] by blast
  have three: "occurrences ''cat'' ''The cat sat. CAT! concat cat'' [4, 13, 25]"
    by code_simp
  have one: "occurrences ([CHR 0xE9] @ ''t'' @ [CHR 0xE9]) ([CHR 0xC9] @ ''t'' @ [CHR 0xE9]) [0]"
    by code_simp
  from search_content_shape [of "[]" "''cat''" "text_analyzer_init []" "[]" 0]
  have a: "search_content (text_analyzer_init []) [] ''cat''
     = SearchError ''No text or search term provided''"
    by simp
  from search_content_shape [of "''caf'' @ [CHR 0xE9] @ '' bar''" "''caf''"
      "text_analyzer_init []" "[]" 0] none
  have b: "search_content (text_analyzer_init []) (''caf'' @ [CHR 0xE9] @ '' bar'') ''caf''
     = SearchMessage (''No exact matches found for '' @ [CHR 0x27] @ ''caf'' @ [CHR 0x27])"
    by simp
  from search_content_shape [of "''The cat sat. CAT! concat cat''" "''cat''"
      "text_analyzer_init []" "[4, 13, 25]" 3] three
  have c: "\<exists>cs. search_content (text_analyzer_init []) ''The cat sat. CAT! concat cat'' ''cat''
              = SearchMatches 3 cs \<and> length cs = 3 \<and> map position cs = [4, 13, 25]"
    by simp
  from search_content_shape [of "[CHR 0xC9] @ ''t'' @ [CHR 0xE9]"
      "[CHR 0xE9] @ ''t'' @ [CHR 0xE9]" "text_analyzer_init []" "[0]" 1] one
  have d: "\<exists>cs. search_content (text_analyzer_init []) ([CHR 0xC9] @ ''t'' @ [CHR 0xE9])
                ([CHR 0xE9] @ ''t'' @ [CHR 0xE9])
              = SearchMatches 1 cs \<and> length cs = 1 \<and> map position cs = [0]"
    by simp
  from a b c d show ?thesis by blast
qed

text \<open>
  C9: when the search returns matches, the positions of the context entries are strictly
  increasing; every position is an offset inside the text at which the term matches, and
  every context is a contiguous part of the text of at most the length of the term plus
  200 characters.
\<close>

theorem search_content_contexts:
  assumes "search_content self text search_term = SearchMatches n cs"
  shows "sorted_wrt (<) (map position cs)
     \<and> (\<forall>c \<in> set cs.
           position c < length text
           \<and> match_at search_term text (position c)
           \<and> sublist (context_text c) text
           \<and> length (context_text c) \<le> length search_term + 200)"
proof -
  let ?ms = "finditer search_term text 0"
  from assms have ne: "search_term \<noteq> []" and cs: "cs = map (make_context text) ?ms"
    by (auto simp: search_content_def Let_def split: if_splits)
  have ends: "snd m = fst m + length search_term" if "m \<in> set ?ms" for m
    using finditer_sound [OF that] by simp
  have "map position cs = map fst ?ms"
    unfolding cs by (simp add: make_context_def Let_def comp_def)
  moreover have "sorted_wrt (<) (map fst ?ms)"
    using finditer_sorted [of search_term "text" 0]
    by (simp add: sorted_wrt_map) (erule sorted_wrt_mono_rel [rotated], simp)
  ultimately have sorted: "sorted_wrt (<) (map position cs)" by simp
  have "position c < length text
           \<and> match_at search_term text (position c)
           \<and> sublist (context_text c) text
           \<and> length (context_text c) \<le> length search_term + 200" if "c \<in> set cs" for c
  proof -
    from that cs obtain m where m: "m \<in> set ?ms" and c: "c = make_context text m" by auto
    from finditer_sound [OF m] have mt: "match_at search_term text (fst m)" by simp
    then have "fst m + length search_term \<le> length text" by (simp add: match_at_def)
    with ne have "fst m < length text" by (cases search_term) auto
    with mt make_context_props [OF ends [OF m], of "text"] c show ?thesis by simp
  qed
  with sorted show ?thesis by blast
qed

theorem search_content_contexts_witness:
  "search_content (text_analyzer_init []) ''The cat sat. CAT! concat cat'' ''cat''
     = SearchMatches 3
        [\<lparr>context_text = ''The cat sat. CAT! concat cat'', position = 4\<rparr>,
         \<lparr>context_text = ''The cat sat. CAT! concat cat'', position = 13\<rparr>,
         \<lparr>context_text = ''The cat sat. CAT! concat cat'', position = 25\<rparr>]
   \<and> sorted_wrt (<) (map position
        [\<lparr>context_text = ''The cat sat. CAT! concat cat'', position = 4\<rparr>,
         \<lparr>context_text = ''The cat sat. CAT! concat cat'', position = 13\<rparr>,
         \<lparr>context_text = ''The cat sat. CAT! concat cat'', position = 25\<rparr>])
   \<and> match_at ''cat'' ''The cat sat. CAT! concat cat'' 13
   \<and> search_content (text_analyzer_init [])
        ([CHR 0xC9] @ ''t'' @ [CHR 0xE9] @ '' et hiver'') ([CHR 0xE9] @ ''t'' @ [CHR 0xE9])
     = SearchMatches 1
        [\<lparr>context_text = [CHR 0xC9] @ ''t'' @ [CHR 0xE9] @ '' et hiver'', position = 0\<rparr>]
   \<and> match_at ([CHR 0xE9] @ ''t'' @ [CHR 0xE9])
        ([CHR 0xC9] @ ''t'' @ [CHR 0xE9] @ '' et hiver'') 0"
proof -
  have sc: "search_content (text_analyzer_init []) ''The cat sat. CAT! concat cat'' ''cat''
     = SearchMatches 3
        [\<lparr>context_text = ''The cat sat. CAT! concat cat'', position = 4\<rparr>,
         \<lparr>context_text = ''The cat sat. CAT! concat cat'', position = 13\<rparr>,
         \<lparr>context_text = ''The cat sat. CAT! concat cat'', position = 25\<rparr>]"
    by code_simp
  have sc': "search_content (text_analyzer_init [])
       ([CHR 0xC9] @ ''t'' @ [CHR 0xE9] @ '' et hiver'') ([CHR 0xE9] @ ''t'' @ [CHR 0xE9])
     = SearchMatches 1
        [\<lparr>context_text = [CHR 0xC9] @ ''t'' @ [CHR 0xE9] @ '' et hiver'', position = 0\<rparr>]"
    by code_simp
  from search_content_contexts [OF sc] sc
  have a: "sorted_wrt (<) (map position
        [\<lparr>context_text = ''The cat sat. CAT! concat cat'', position = 4\<rparr>,
         \<lparr>context_text = ''The cat sat. CAT! concat cat'', position = 13\<rparr>,
         \<lparr>context_text = ''The cat sat. CAT! concat cat'', position = 25\<rparr>])
     \<and> match_at ''cat'' ''The cat sat. CAT! concat cat'' 13"
    by simp
  from search_content_contexts [OF sc']
  have b: "match_at ([CHR 0xE9] @ ''t'' @ [CHR 0xE9])
        ([CHR 0xC9] @ ''t'' @ [CHR 0xE9] @ '' et hiver'') 0"
    by simp
  from sc sc' a b show ?thesis by blast
qed

section \<open>Properties of save_text_to_file\<close>

text \<open>
  C1 fails on \<open>save_text_to_file\<close>: it has no handler, so an exception of the file
  system reaches the caller. When \<open>scraped_content\<close> exists as a regular file the
  directory creation raises, and in a read-only working directory that already holds
  the directory the write raises; both exceptions are the result of the call.
\<close>

theorem save_text_to_file_raises:
  "save_text_to_file flat_os 0
      \<lparr>entries = [(''scraped_content'', File ''x'')], writable = True\<rparr>
      ''hello'' (Some ''out.txt'')
     = Inl (PyExc ''FileExistsError''
              (''[Errno 17] File exists: '' @ quoted ''scraped_content''))
   \<and> save_text_to_file flat_os 0
      \<lparr>entries = [(''scraped_content'', Dir)], writable = False\<rparr>
      ''hello'' (Some ''out.txt'')
     = Inl (PyExc ''PermissionError''
              (''[Errno 13] Permission denied: '' @ quoted ''scraped_content/out.txt''))"
  by (simp add: save_text_to_file_def flat_os_def flat_mkdir_def flat_write_text_def
        flat_joinpath_def create_error_def parent_def quoted_def)

section \<open>Properties of get_website_text_content\<close>

lemma retry_loop_all_fail:
  "(\<forall>a \<in> set as. fst (try_attempt net url a) = None) \<Longrightarrow>
   retry_loop net url mr as = (None, concat (map (iteration net url mr) as))"
  by (induction as) (auto simp: iteration_def split: prod.splits option.splits)

lemma retry_loop_first_success:
  "(\<forall>a \<in> set pre. fst (try_attempt net url a) = None) \<Longrightarrow>
   try_attempt net url k = (Some text, evs) \<Longrightarrow>
   retry_loop net url mr (pre @ k # post)
     = (Some text, concat (map (iteration net url mr) pre) @ evs)"
  by (induction pre) (auto simp: iteration_def split: prod.splits option.splits)

lemma fetches_append: "fetches (xs @ ys) = fetches xs + fetches ys"
  by (simp add: fetches_def)

lemma sleeps_append: "sleeps (xs @ ys) = sleeps xs @ sleeps ys"
  by (simp add: sleeps_def)

lemma fetches_try_attempt: "fetches (snd (try_attempt net url a)) = 1"
  by (simp add: try_attempt_def fetches_def split: sum.splits option.splits)

lemma sleeps_try_attempt: "sleeps (snd (try_attempt net url a)) = []"
  by (simp add: try_attempt_def sleeps_def split: sum.splits option.splits)

lemma try_attempt_text: "try_attempt net url a = (Some text, evs) \<Longrightarrow> text \<noteq> []"
  by (auto simp: try_attempt_def split: sum.splits option.splits if_splits)

lemma fetches_iterations: "fetches (concat (map (iteration net url mr) as)) = length as"
proof (induction as)
  case Nil
  show ?case by (simp add: fetches_def)
next
  case (Cons a as)
  have "fetches (iteration net url mr a) = 1"
    by (simp add: iteration_def fetches_append fetches_try_attempt) (simp add: fetches_def)
  with Cons show ?case by (simp add: fetches_append)
qed

lemma sleeps_iterations:
  "sleeps (concat (map (iteration net url mr) as))
     = map Suc (filter (\<lambda>a. int a < mr - 1) as)"
proof (induction as)
  case Nil
  show ?case by (simp add: sleeps_def)
next
  case (Cons a as)
  have "sleeps (iteration net url mr a) = (if int a < mr - 1 then [Suc a] else [])"
    by (simp add: iteration_def sleeps_append sleeps_try_attempt) (simp add: sleeps_def)
  with Cons show ?case by (simp add: sleeps_append)
qed

lemma filter_less_upt: "filter (\<lambda>a. a < k) [0 ..< n] = [0 ..< min k n]"
proof (induction n)
  case 0
  show ?case by simp
next
  case (Suc n)
  show ?case
  proof (cases "n < k")
    case True
    then have "min k (Suc n) = Suc n" "min k n = n" by simp_all
    with Suc True show ?thesis by simp
  next
    case False
    then have "min k (Suc n) = k" "min k n = k" by simp_all
    with Suc False show ?thesis by simp
  qed
qed

lemma filter_upt_below:
  "filter (\<lambda>a. int a < mr - 1) [0 ..< nat mr] = [0 ..< nat mr - 1]"
proof -
  have "(\<lambda>a. int a < mr - 1) = (\<lambda>a. a < nat mr - 1)" by (rule ext) arith
  then show ?thesis by (simp add: filter_less_upt)
qed

lemma filter_upt_prefix:
  "k < nat mr \<Longrightarrow> filter (\<lambda>a. int a < mr - 1) [0 ..< k] = [0 ..< k]"
proof -
  assume "k < nat mr"
  then have "\<forall>a \<in> set [0 ..< k]. int a < mr - 1" by auto
  then show ?thesis by (simp only: filter_True)
qed

text \<open>
  C6, as the specification states it, fails for a budget that is not positive: with
  \<open>max_retries = 0\<close> the loop makes no attempt and no sleep, which is not
  \<open>max_retries - 1\<close> sleeps, and with \<open>max_retries = -1\<close> the number of attempts,
  zero, is not \<open>max_retries\<close>.
\<close>

theorem get_website_text_content_budget_counterexample:
  "get_website_text_content dead_net ''u'' 0 = (None, [])
   \<and> int (length (sleeps (snd (get_website_text_content dead_net ''u'' 0)))) \<noteq> 0 - 1
   \<and> int (fetches (snd (get_website_text_content dead_net ''u'' (- 1)))) \<noteq> - 1"
  by (simp add: get_website_text_content_def sleeps_def fetches_def)

text \<open>
  C6 (amended). With \<open>max_retries \<le> 0\<close> the call returns absence with no attempt and
  no sleep. With \<open>max_retries \<ge> 1\<close>, if every attempt yields no content the call
  returns absence after exactly \<open>max_retries\<close> attempts, each but the last followed by
  its sleep, so that there are \<open>max_retries - 1\<close> sleeps of 1, 2, ...,
  \<open>max_retries - 1\<close> seconds. If attempt \<open>k\<close> is the first to yield a non-empty text,
  that text is returned after \<open>k + 1\<close> attempts and the sleeps of 1, ..., \<open>k\<close>
  seconds, and the events of attempt \<open>k\<close> are the last ones.
\<close>

theorem get_website_text_content_retry:
  "(max_retries \<le> 0 \<longrightarrow> get_website_text_content net url max_retries = (None, []))
   \<and> (1 \<le> max_retries
        \<and> (\<forall>a < nat max_retries. fst (try_attempt net url a) = None) \<longrightarrow>
        (\<exists>evs. get_website_text_content net url max_retries = (None, evs)
           \<and> evs = concat (map (iteration net url max_retries) [0 ..< nat max_retries])
           \<and> int (fetches evs) = max_retries
           \<and> int (length (sleeps evs)) = max_retries - 1
           \<and> sleeps evs = [1 ..< nat max_retries]))
   \<and> (k < nat max_retries
        \<and> (\<forall>a < k. fst (try_attempt net url a) = None)
        \<and> try_attempt net url k = (Some text, last_evs) \<longrightarrow>
        (\<exists>evs. get_website_text_content net url max_retries = (Some text, evs)
           \<and> text \<noteq> []
           \<and> evs = concat (map (iteration net url max_retries) [0 ..< k]) @ last_evs
           \<and> fetches evs = k + 1
           \<and> sleeps evs = [1 ..< Suc k]))"
proof (intro conjI impI)
  assume "max_retries \<le> 0"
  then show "get_website_text_content net url max_retries = (None, [])"
    by (simp add: get_website_text_content_def)
next
  assume h: "1 \<le> max_retries
             \<and> (\<forall>a < nat max_retries. fst (try_attempt net url a) = None)"
  let ?evs = "concat (map (iteration net url max_retries) [0 ..< nat max_retries])"
  from h have run: "get_website_text_content net url max_retries = (None, ?evs)"
    unfolding get_website_text_content_def
    by (intro retry_loop_all_fail) simp
  from h have count: "int (fetches ?evs) = max_retries"
    by (simp add: fetches_iterations)
  have sl: "sleeps ?evs = map Suc [0 ..< nat max_retries - 1]"
    by (simp only: sleeps_iterations filter_upt_below)
  from h have "map Suc [0 ..< nat max_retries - 1] = [1 ..< nat max_retries]"
    by (simp add: map_Suc_upt)
  with sl have sl': "sleeps ?evs = [1 ..< nat max_retries]" by simp
  from h have "int (nat max_retries - 1) = max_retries - 1" by arith
  with sl' have "int (length (sleeps ?evs)) = max_retries - 1" by simp
  with run count sl'
  show "\<exists>evs. get_website_text_content net url max_retries = (None, evs)
           \<and> evs = concat (map (iteration net url max_retries) [0 ..< nat max_retries])
           \<and> int (fetches evs) = max_retries
           \<and> int (length (sleeps evs)) = max_retries - 1
           \<and> sleeps evs = [1 ..< nat max_retries]"
    by blast
next
  assume h: "k < nat max_retries
             \<and> (\<forall>a < k. fst (try_attempt net url a) = None)
             \<and> try_attempt net url k = (Some text, last_evs)"
  let ?evs = "concat (map (iteration net url max_retries) [0 ..< k]) @ last_evs"
  from h have split: "[0 ..< nat max_retries] = [0 ..< k] @ k # [Suc k ..< nat max_retries]"
    by (metis less_imp_le_nat upt_add_eq_append upt_conv_Cons zero_le plus_nat.add_0
        le_add_diff_inverse)
  from h have fails: "\<forall>a \<in> set [0 ..< k]. fst (try_attempt net url a) = None" by simp
  from h have att: "try_attempt net url k = (Some text, last_evs)" by simp
  have run: "get_website_text_content net url max_retries = (Some text, ?evs)"
    unfolding get_website_text_content_def split
    by (rule retry_loop_first_success [OF fails att])
  from att have ne: "text \<noteq> []" by (rule try_attempt_text)
  from att have "snd (try_attempt net url k) = last_evs" by simp
  then have last1: "fetches last_evs = 1" and last0: "sleeps last_evs = []"
    using fetches_try_attempt [of net url k] sleeps_try_attempt [of net url k] by simp_all
  have cnt: "fetches ?evs = k + 1"
    by (simp add: fetches_append fetches_iterations last1)
  from h have "sleeps ?evs = map Suc [0 ..< k]"
    by (simp add: sleeps_append sleeps_iterations filter_upt_prefix last0)
  then have sl: "sleeps ?evs = [1 ..< Suc k]" by (simp add: map_Suc_upt)
  from run ne cnt sl
  show "\<exists>evs. get_website_text_content net url max_retries = (Some text, evs)
           \<and> text \<noteq> []
           \<and> evs = concat (map (iteration net url max_retries) [0 ..< k]) @ last_evs
           \<and> fetches evs = k + 1
           \<and> sleeps evs = [1 ..< Suc k]"
    by blast
qed

theorem get_website_text_content_retry_witness:
  "get_website_text_content dead_net ''u'' 3
     = (None, [FetchUrl ''u'', Sleep 1, FetchUrl ''u'', Sleep 2, FetchUrl ''u''])
   \<and> get_website_text_content flaky_net ''u'' 5
     = (Some ''hello'', [FetchUrl ''u'', Sleep 1, FetchUrl ''u'', Sleep 2,
                         FetchUrl ''u'', Extract ''<p>hello</p>''])"
proof -
  have fail: "\<forall>a < nat 3. fst (try_attempt dead_net ''u'' a) = None"
    by (simp add: try_attempt_def dead_net_def)
  have pre: "\<forall>a < 2. fst (try_attempt flaky_net ''u'' a) = None"
    by (simp add: try_attempt_def flaky_net_def)
  have hit: "try_attempt flaky_net ''u'' 2
               = (Some ''hello'', [FetchUrl ''u'', Extract ''<p>hello</p>''])"
    by (simp add: try_attempt_def flaky_net_def)
  have up: "[0 ..< nat 3] = [0, 1, 2]" "[0 ..< (2::nat)] = [0, 1]"
    by (simp_all add: upt_rec)
  from get_website_text_content_retry [of 3 dead_net "''u''"] fail
  have a: "get_website_text_content dead_net ''u'' 3
             = (None, concat (map (iteration dead_net ''u'' 3) [0 ..< nat 3]))"
    by auto
  from get_website_text_content_retry [of 5 flaky_net "''u''" 2] pre hit
  have b: "get_website_text_content flaky_net ''u'' 5
             = (Some ''hello'', concat (map (iteration flaky_net ''u'' 5) [0 ..< 2])
                  @ [FetchUrl ''u'', Extract ''<p>hello</p>''])"
    by auto
  show ?thesis
    unfolding a b up
    by (simp add: iteration_def try_attempt_def dead_net_def flaky_net_def)
qed

end
